theory Spec2Isabelle
  imports Main
begin

section \<open>Errors\<close>

text \<open>
  The exceptions the program can raise by itself. \<open>AttributeError\<close> is what
  \<^verbatim>\<open>match.group(1)\<close> raises when \<^verbatim>\<open>search\<close> found nothing (\<^verbatim>\<open>None.group\<close>, and
  \<^verbatim>\<open>None.split\<close> in \<^verbatim>\<open>main\<close>), \<open>ValueError\<close> is what \<^verbatim>\<open>int('')\<close> raises, \<open>TypeError\<close>
  is what \<^verbatim>\<open>search\<close> raises on a patch that is \<^verbatim>\<open>None\<close>. \<open>ServiceError\<close> stands for any
  exception of the two client libraries (the version-control host and the completion
  service).
\<close>

datatype error = AttributeError | ValueError | TypeError | ServiceError string

section \<open>Patch Parser: \<^verbatim>\<open>line_start_patch\<close>\<close>

text \<open>
  \<^verbatim>\<open>
  def line_start_patch(patch: str) -> int:
      match = search(r"^@@ [-+](\d*),", patch)
      return int(match.group(1))
  \<close>
  Characters are the 8-bit \<open>char\<close> of HOL, read as the code points below 256; there
  the class \<^verbatim>\<open>\d\<close> is exactly \<^verbatim>\<open>0\<close> to \<^verbatim>\<open>9\<close>.
\<close>

definition is_digit :: "char \<Rightarrow> bool" where
  "is_digit c = (c \<in> set ''0123456789'')"

definition digit_val :: "char \<Rightarrow> nat" where
  "digit_val c = of_char c - 48"

text \<open>
  \<^verbatim>\<open>search(r"^@@ [-+](\d*),", patch)\<close>: the pattern is anchored at the start of the
  string (no MULTILINE flag), \<^verbatim>\<open>\d*\<close> is greedy and the character after it has to be
  a comma, which is no digit, so the group is the longest run of digits after the sign.
  The result is group 1 of the match, \<open>None\<close> when there is no match.
\<close>

fun hunk_search :: "string \<Rightarrow> string option" where
  "hunk_search (a # b # c # sg # rest) =
     (if a = CHR ''@'' \<and> b = CHR ''@'' \<and> c = CHR '' '' \<and> (sg = CHR ''-'' \<or> sg = CHR ''+'')
      then (case dropWhile is_digit rest of
              [] \<Rightarrow> None
            | d # _ \<Rightarrow> if d = CHR '','' then Some (takeWhile is_digit rest) else None)
      else None)"
| "hunk_search _ = None"

text \<open>
  \<^verbatim>\<open>int(s)\<close> on a string of decimal digits: the digits are read from the left, each
  step multiplying by ten. The empty string raises \<^verbatim>\<open>ValueError\<close>. (Python's \<^verbatim>\<open>int\<close>
  accepts more, such as signs and blanks; the group handed to it here holds digits only.
  Python integers are unbounded; the interpreter's configurable cap on the length of a
  numeral is not modelled.)
\<close>

definition py_int :: "string \<Rightarrow> error + int" where
  "py_int s =
     (if s \<noteq> [] \<and> list_all is_digit s
      then Inr (int (foldl (\<lambda>acc c. 10 * acc + digit_val c) 0 s))
      else Inl ValueError)"

definition line_start_patch :: "string \<Rightarrow> error + int" where
  "line_start_patch patch =
     (case hunk_search patch of
        None \<Rightarrow> Inl AttributeError
      | Some g \<Rightarrow> py_int g)"


text \<open>The form of header the specification names: \<^verbatim>\<open>@@ -<n>,\<close> or \<^verbatim>\<open>@@ +<n>,\<close>.\<close>

definition hunk_header :: "char \<Rightarrow> string \<Rightarrow> string \<Rightarrow> string" where
  "hunk_header sg ds rest = ''@@ '' @ [sg] @ ds @ '','' @ rest"

section \<open>Prompt Builder: \<^verbatim>\<open>code_type\<close> and \<^verbatim>\<open>prompt\<close>\<close>

text \<open>
  \<^verbatim>\<open>
  def code_type(filename: str) -> str | None:
      match = search(r"^.*\.([^.]*)$", filename)
      if match:
          match match.group(1):
              case "js":   return "JavaScript"
              case "ts":   return "TypeScript"
              case "java": return "Java"
              case "py":   return "Python"
              case "sh":   return "Bash"
  \<close>
  \<^verbatim>\<open>search(r"^.*\.([^.]*)$", filename)\<close>: the group holds no dot and runs to the end of
  the string, so the dot before it is the last dot of the name. The part before that dot
  is matched by \<^verbatim>\<open>.*\<close> from the start of the string, and without the DOTALL flag
  \<^verbatim>\<open>.\<close> matches every character but the line feed. The class \<^verbatim>\<open>[^.]\<close> does match a
  line feed, and \<^verbatim>\<open>[^.]*\<close> is greedy, so the group is all that follows the last dot.
  The result is group 1, \<open>None\<close> when there is no match.
\<close>

definition ext_search :: "string \<Rightarrow> string option" where
  "ext_search filename =
     (let upto_dot = rev (dropWhile (\<lambda>c. c \<noteq> CHR ''.'') (rev filename));
          after_dot = rev (takeWhile (\<lambda>c. c \<noteq> CHR ''.'') (rev filename))
      in if upto_dot = [] then None
         else if CHR 0x0A \<in> set upto_dot then None
         else Some after_dot)"

definition code_type :: "string \<Rightarrow> string option" where
  "code_type filename =
     (case ext_search filename of
        None \<Rightarrow> None
      | Some g \<Rightarrow>
          if g = ''js'' then Some ''JavaScript''
          else if g = ''ts'' then Some ''TypeScript''
          else if g = ''java'' then Some ''Java''
          else if g = ''py'' then Some ''Python''
          else if g = ''sh'' then Some ''Bash''
          else None)"

text \<open>
  \<^verbatim>\<open>
  def prompt(filename: str, contents: str) -> str:
      code = "code"
      type = code_type(filename)
      if type:
          code = f"{type} {code}"
      return f"Please evaluate the  {code} below.\n" ... f"```\n{contents}\n```"
  \<close>
  \<open>prompt_code\<close> is the value of the local variable \<^verbatim>\<open>code\<close> when the template is
  filled in; \<^verbatim>\<open>if type:\<close> is false for \<^verbatim>\<open>None\<close> and for the empty string.
\<close>

definition prompt_code :: "string \<Rightarrow> string" where
  "prompt_code filename =
     (case code_type filename of
        None \<Rightarrow> ''code''
      | Some type \<Rightarrow> if type = [] then ''code'' else type @ '' '' @ ''code'')"

definition prompt_questions :: string where
  "prompt_questions =
     ''Provide answers to the following questions in numbered lists\<newline>'' @
     ''   - does the code below has obvious bugs?\<newline>'' @
     ''   - are there any security issues in the code?\<newline>'' @
     ''   - how do you assess the readability of the code?\<newline>'' @
     ''   - are there any code duplication in the provided code?\<newline>'' @
     ''   - are variable names descriptive enough?\<newline>'' @
     ''   - is the code well documented?\<newline>'' @
     ''   - can you identify possible performance improvements for this code?\<newline>'' @
     ''At the end of your answer, please summarize and explain what changes should be performed in the '' @
     ''provided code to improve its quality\<newline>'' @
     ''If a question doesn't have a new suggestion omit it from your answer.''"

definition prompt :: "string \<Rightarrow> string \<Rightarrow> string" where
  "prompt filename contents =
     ''Please evaluate the  '' @ prompt_code filename @ '' below.\<newline>'' @
     prompt_questions @
     ''```\<newline>'' @ contents @ ''\<newline>```''"

text \<open>
  The labelling the specification describes: the case-sensitive suffix after the last
  dot, looked up in the table of five extensions; any other suffix, or a name without
  a dot, gives the bare label.
\<close>

definition suffix_after_last_dot :: "string \<Rightarrow> string option" where
  "suffix_after_last_dot name =
     (if CHR ''.'' \<in> set name
      then Some (rev (takeWhile (\<lambda>c. c \<noteq> CHR ''.'') (rev name)))
      else None)"

definition spec_label :: "string \<Rightarrow> string" where
  "spec_label name =
     (if suffix_after_last_dot name = Some ''js'' then ''JavaScript code''
      else if suffix_after_last_dot name = Some ''ts'' then ''TypeScript code''
      else if suffix_after_last_dot name = Some ''java'' then ''Java code''
      else if suffix_after_last_dot name = Some ''py'' then ''Python code''
      else if suffix_after_last_dot name = Some ''sh'' then ''Bash code''
      else ''code'')"

section \<open>Change Selector: \<^verbatim>\<open>files_for_review\<close>\<close>

text \<open>
  What the host's client hands over: a changed-file entry of a commit with its path,
  its status and its patch (\<open>None\<close> where the host sends no textual diff), and a commit
  with its hash and its changed files, in the order the host lists them.
\<close>

record changed_file =
  filename :: string
  status :: string
  patch :: "string option"

record commit =
  sha :: string
  files :: "changed_file list"

text \<open>
  The dictionary \<^verbatim>\<open>changes\<close>: Python dictionaries iterate in insertion order, so it
  is a list of key and value pairs. \<open>dict_get\<close> is \<^verbatim>\<open>changes.get(key, None)\<close>;
  \<open>dict_set\<close> is \<^verbatim>\<open>changes[key] = value\<close>, which keeps the place of a key that is
  already there and appends a new one.
\<close>

type_synonym changes = "(string \<times> (int \<times> commit)) list"

fun dict_get :: "changes \<Rightarrow> string \<Rightarrow> (int \<times> commit) option" where
  "dict_get [] key = None"
| "dict_get ((k, v) # rest) key = (if k = key then Some v else dict_get rest key)"

fun dict_set :: "changes \<Rightarrow> string \<Rightarrow> (int \<times> commit) \<Rightarrow> changes" where
  "dict_set [] key val = [(key, val)]"
| "dict_set ((k, v) # rest) key val =
     (if k = key then (k, val) # rest else (k, v) # dict_set rest key val)"

text \<open>
  Truth value of what \<^verbatim>\<open>changes.get(file.filename, None)\<close> returns: \<^verbatim>\<open>None\<close> is
  false, a stored pair (a tuple of two components) is true.
\<close>

fun truthy :: "(int \<times> commit) option \<Rightarrow> bool" where
  "truthy None = False"
| "truthy (Some (ln, c)) = True"

text \<open>
  \<^verbatim>\<open>line_start_patch(file.patch)\<close>, including the patch that is \<^verbatim>\<open>None\<close>, on which
  \<^verbatim>\<open>search\<close> raises \<^verbatim>\<open>TypeError\<close>.
\<close>

definition patch_line :: "string option \<Rightarrow> error + int" where
  "patch_line p = (case p of None \<Rightarrow> Inl TypeError | Some s \<Rightarrow> line_start_patch s)"

text \<open>
  \<^verbatim>\<open>
  def files_for_review(pull, patterns):
      changes = {}
      commits = pull.get_commits()
      for commit in commits:
          for file in commit.files:
              if file.status in ["unchanged", "removed"]:
                  continue
              for pattern in patterns:
                  if fnmatch(file.filename, pattern) and not changes.get(file.filename, None):
                      changes[file.filename] = (line_start_patch(file.patch), commit)
      return [(x[0], max(1, x[1][0]), x[1][1]) for x in changes.items()]
  \<close>
  \<^verbatim>\<open>fnmatch\<close> is a function of Python's standard library; the model takes it as the
  parameter \<open>fnmatch\<close>, a total test on a name and a pattern. The three loops are three
  recursive functions over the dictionary; an exception of \<open>line_start_patch\<close> ends all
  of them.
\<close>

type_synonym matcher = "string \<Rightarrow> string \<Rightarrow> bool"

fun patterns_loop :: "matcher \<Rightarrow> commit \<Rightarrow> changed_file \<Rightarrow> string list \<Rightarrow> changes \<Rightarrow> error + changes" where
  "patterns_loop fnmatch c f [] changes = Inr changes"
| "patterns_loop fnmatch c f (pattern # rest) changes =
     (if fnmatch (filename f) pattern \<and> \<not> truthy (dict_get changes (filename f))
      then (case patch_line (patch f) of
              Inl e \<Rightarrow> Inl e
            | Inr ln \<Rightarrow> patterns_loop fnmatch c f rest (dict_set changes (filename f) (ln, c)))
      else patterns_loop fnmatch c f rest changes)"

fun files_loop :: "matcher \<Rightarrow> string list \<Rightarrow> commit \<Rightarrow> changed_file list \<Rightarrow> changes \<Rightarrow> error + changes" where
  "files_loop fnmatch patterns c [] changes = Inr changes"
| "files_loop fnmatch patterns c (f # rest) changes =
     (if status f \<in> set [''unchanged'', ''removed'']
      then files_loop fnmatch patterns c rest changes
      else (case patterns_loop fnmatch c f patterns changes of
              Inl e \<Rightarrow> Inl e
            | Inr changes' \<Rightarrow> files_loop fnmatch patterns c rest changes'))"

fun commits_loop :: "matcher \<Rightarrow> string list \<Rightarrow> commit list \<Rightarrow> changes \<Rightarrow> error + changes" where
  "commits_loop fnmatch patterns [] changes = Inr changes"
| "commits_loop fnmatch patterns (c # rest) changes =
     (case files_loop fnmatch patterns c (files c) changes of
        Inl e \<Rightarrow> Inl e
      | Inr changes' \<Rightarrow> commits_loop fnmatch patterns rest changes')"

definition files_for_review ::
  "matcher \<Rightarrow> commit list \<Rightarrow> string list \<Rightarrow> error + (string \<times> int \<times> commit) list" where
  "files_for_review fnmatch pull patterns =
     (case commits_loop fnmatch patterns pull [] of
        Inl e \<Rightarrow> Inl e
      | Inr changes \<Rightarrow> Inr (map (\<lambda>x. (fst x, max 1 (fst (snd x)), snd (snd x))) changes))"

text \<open>
  The notions the claims about the selector use. A changed-file entry counts for the
  selector when its status is neither "unchanged" nor "removed" and its path matches one
  of the patterns; a commit counts for a name when one of its entries for that name does.
\<close>

definition counts :: "matcher \<Rightarrow> string list \<Rightarrow> changed_file \<Rightarrow> bool" where
  "counts fnmatch patterns f =
     (status f \<noteq> ''unchanged'' \<and> status f \<noteq> ''removed''
      \<and> (\<exists>p \<in> set patterns. fnmatch (filename f) p))"

definition commit_counts :: "matcher \<Rightarrow> string list \<Rightarrow> string \<Rightarrow> commit \<Rightarrow> bool" where
  "commit_counts fnmatch patterns name c =
     (\<exists>f \<in> set (files c). filename f = name \<and> counts fnmatch patterns f)"

text \<open>
  All changed-file entries of a pull request, each beside its commit, in the order in
  which the two outer loops visit them; and the first occurrences in a list of names.
\<close>

definition entries :: "commit list \<Rightarrow> (commit \<times> changed_file) list" where
  "entries pull = concat (map (\<lambda>c. map (\<lambda>f. (c, f)) (files c)) pull)"

fun first_seen :: "string set \<Rightarrow> string list \<Rightarrow> string list" where
  "first_seen seen [] = []"
| "first_seen seen (x # xs) =
     (if x \<in> seen then first_seen seen xs else x # first_seen (insert x seen) xs)"

text \<open>
  The selection written as one pass over the entries, for comparison with the three
  loops: an entry that counts and whose name has not been seen is parsed and recorded,
  every other entry is passed over; \<open>seen\<close> holds the names recorded so far.
\<close>

fun select ::
  "matcher \<Rightarrow> string list \<Rightarrow> (commit \<times> changed_file) list \<Rightarrow> string set \<Rightarrow> error + changes" where
  "select fnmatch patterns [] seen = Inr []"
| "select fnmatch patterns ((c, f) # es) seen =
     (if counts fnmatch patterns f \<and> filename f \<notin> seen
      then (case patch_line (patch f) of
              Inl e \<Rightarrow> Inl e
            | Inr ln \<Rightarrow>
                (case select fnmatch patterns es (insert (filename f) seen) of
                   Inl e \<Rightarrow> Inl e
                 | Inr more_changes \<Rightarrow> Inr ((filename f, (ln, c)) # more_changes)))
      else select fnmatch patterns es seen)"

text \<open>
  A commit without its entries of status "unchanged" or "removed", to state that such
  entries contribute nothing.
\<close>

definition without_skipped :: "commit \<Rightarrow> commit" where
  "without_skipped c =
     c\<lparr>files := filter (\<lambda>f. status f \<noteq> ''unchanged'' \<and> status f \<noteq> ''removed'') (files c)\<rparr>"

text \<open>
  A shell-style matcher for examples: \<^verbatim>\<open>*\<close> stands for any run of characters,
  \<^verbatim>\<open>?\<close> for one character, every other character for itself (the fragment of
  \<^verbatim>\<open>fnmatch\<close> patterns without bracket expressions, on a system whose \<^verbatim>\<open>normcase\<close>
  changes nothing).
\<close>

fun glob :: "string \<Rightarrow> string \<Rightarrow> bool" where
  "glob [] [] = True"
| "glob (c # cs) [] = False"
| "glob [] (p # ps) = (p = CHR ''*'' \<and> glob [] ps)"
| "glob (c # cs) (p # ps) =
     (if p = CHR ''*'' then glob (c # cs) ps \<or> glob cs (p # ps)
      else (p = CHR ''?'' \<or> p = c) \<and> glob cs ps)"

section \<open>Review Requester, Reply Handler and Orchestrator\<close>

text \<open>
  The comment entries the host lists for the pull request, with the attributes the
  program reads from them, and the entry of the review that \<^verbatim>\<open>main\<close> builds (a
  dictionary with the keys \<^verbatim>\<open>path\<close>, \<^verbatim>\<open>line\<close> and \<^verbatim>\<open>body\<close>).
\<close>

record issue_comment =
  comment_id :: int
  user_login :: string
  comment_body :: string
  reply_to_id :: "int option"
  original_commit_id :: string
  comment_path :: string
  original_position :: int
  diff_hunk :: string

record review_comment =
  path :: string
  line :: int
  body :: string

text \<open>
  The calls that leave the process, in the order in which a run issues them: fetching
  a file's content at a commit, the chat completion of \<^verbatim>\<open>review\<close>, listing the comments
  (the first thing the Reply Handler does with the pull request), the completion and
  the posted reply of \<^verbatim>\<open>handle_replies\<close>, what the program prints, and the creation of
  the review (body, event, comments).
\<close>

datatype event =
    GetContents string string
  | ChatCompletion string
  | GetIssueComments
  | Completion string
  | CreateReply int string
  | Print string
  | CreateReview string string "review_comment list"

text \<open>
  The two services as the program sees them in one run. The listings are data; a call
  that returns text or posts something may raise instead. The model name, the
  temperature and the token budget are passed through unchanged and are part of the
  service functions here. A file's content is asked for by path and commit hash.
\<close>

record world =
  get_commits :: "commit list"
  get_contents :: "string \<Rightarrow> string \<Rightarrow> error + string"
  chat_completion :: "string \<Rightarrow> error + string"
  get_issue_comments :: "issue_comment list"
  completion :: "string \<Rightarrow> error + string"
  create_reply :: "int \<Rightarrow> string \<Rightarrow> error option"
  create_review :: "string \<Rightarrow> string \<Rightarrow> review_comment list \<Rightarrow> error option"

text \<open>
  \<^verbatim>\<open>
  def review(filename, content, model, temperature, max_tokens):
      chat_review = openai.ChatCompletion.create(..., messages=[{"role": "user",
          "content": prompt(filename, content)}]).choices[0].message.content
      return f"*ChatGPT review for {filename}:*\n" f"{chat_review}"
  \<close>
  Every function with effects returns its result beside the events it issued.
\<close>

definition review :: "world \<Rightarrow> string \<Rightarrow> string \<Rightarrow> (error + string) \<times> event list" where
  "review w fname content =
     (case chat_completion w (prompt fname content) of
        Inl e \<Rightarrow> (Inl e, [ChatCompletion (prompt fname content)])
      | Inr chat_review \<Rightarrow>
          (Inr (''*ChatGPT review for '' @ fname @ '':*\<newline>'' @ chat_review),
           [ChatCompletion (prompt fname content)]))"

text \<open>Python's \<^verbatim>\<open>str\<close> of an integer, for the f-string of the reply prompt.\<close>

fun str_nat :: "nat \<Rightarrow> string" where
  "str_nat n =
     (if n < 10 then [char_of (48 + n)]
      else str_nat (n div 10) @ [char_of (48 + n mod 10)])"

declare str_nat.simps [simp del]

definition str_int :: "int \<Rightarrow> string" where
  "str_int i = (if i < 0 then CHR ''-'' # str_nat (nat (- i)) else str_nat (nat i))"

definition bot_login :: string where
  "bot_login = ''github-actions[bot]''"

text \<open>
  A \<^verbatim>\<open>for\<close> loop whose body has effects and may raise: the bodies run in order, the
  first exception ends the loop, and the events of all bodies that ran are kept.
\<close>

fun for_each :: "('a \<Rightarrow> error option \<times> event list) \<Rightarrow> 'a list \<Rightarrow> error option \<times> event list" where
  "for_each step [] = (None, [])"
| "for_each step (x # xs) =
     (case step x of
        (Some e, evs) \<Rightarrow> (Some e, evs)
      | (None, evs) \<Rightarrow> (case for_each step xs of (res, evs') \<Rightarrow> (res, evs @ evs')))"

text \<open>
  \<^verbatim>\<open>
  def handle_replies(...):
      ...
      comments = pull.get_issue_comments()
      for comment in comments:
          if comment.user.login == "github-actions[bot]":
              replies = [reply for reply in comments
                         if reply.reply_to_id == comment.id
                         and reply.user.login != "github-actions[bot]"]
              for reply in replies:
                  bot_replies = [bot_reply for bot_reply in comments
                                 if bot_reply.reply_to_id == reply.id
                                 and bot_reply.user.login == "github-actions[bot]"]
                  if bot_replies:
                      print(f"Skipped already handled reply from ...")
                      continue
                  question = reply.body
                  response = openai.Completion.create(engine=model, prompt=f"...", ...)
                  reply.create_reply(response.choices[0].text)
                  print(f"Handled reply from {reply.user.login}: {reply.body}")
          else:
              print(f"Skipped non-bot comment from {comment.user.login}: {comment.body}")
  \<close>
\<close>

definition reply_prompt :: "issue_comment \<Rightarrow> string" where
  "reply_prompt reply =
     comment_body reply @ ''\<newline>\<newline>'' @ original_commit_id reply @ '':\<newline>'' @
     comment_path reply @ '' line '' @ str_int (original_position reply) @
     ''\<newline>```'' @ diff_hunk reply @ ''```''"

definition bot_replies :: "issue_comment list \<Rightarrow> issue_comment \<Rightarrow> issue_comment list" where
  "bot_replies comments reply =
     filter (\<lambda>bot_reply. reply_to_id bot_reply = Some (comment_id reply)
                          \<and> user_login bot_reply = bot_login) comments"

definition replies :: "issue_comment list \<Rightarrow> issue_comment \<Rightarrow> issue_comment list" where
  "replies comments comment =
     filter (\<lambda>reply. reply_to_id reply = Some (comment_id comment)
                      \<and> user_login reply \<noteq> bot_login) comments"

definition handle_reply :: "world \<Rightarrow> issue_comment list \<Rightarrow> issue_comment \<Rightarrow> error option \<times> event list" where
  "handle_reply w comments reply =
     (if bot_replies comments reply \<noteq> []
      then (None, [Print (''Skipped already handled reply from '' @ user_login reply
                            @ '': '' @ comment_body reply)])
      else (case completion w (reply_prompt reply) of
              Inl e \<Rightarrow> (Some e, [Completion (reply_prompt reply)])
            | Inr text \<Rightarrow>
                (case create_reply w (comment_id reply) text of
                   Some e \<Rightarrow>
                     (Some e, [Completion (reply_prompt reply), CreateReply (comment_id reply) text])
                 | None \<Rightarrow>
                     (None, [Completion (reply_prompt reply), CreateReply (comment_id reply) text,
                             Print (''Handled reply from '' @ user_login reply
                                    @ '': '' @ comment_body reply)]))))"

definition handle_comment :: "world \<Rightarrow> issue_comment list \<Rightarrow> issue_comment \<Rightarrow> error option \<times> event list" where
  "handle_comment w comments comment =
     (if user_login comment = bot_login
      then for_each (handle_reply w comments) (replies comments comment)
      else (None, [Print (''Skipped non-bot comment from '' @ user_login comment
                            @ '': '' @ comment_body comment)]))"

definition handle_replies :: "world \<Rightarrow> error option \<times> event list" where
  "handle_replies w =
     (case for_each (handle_comment w (get_issue_comments w)) (get_issue_comments w) of
        (res, evs) \<Rightarrow> (res, GetIssueComments # evs))"

text \<open>
  \<^verbatim>\<open>
  def main():
      ...
      file_patterns = args.files.split(",")
      ...
      comments = []
      for filename, line, commit in files_for_review(pull, file_patterns):
          content = repo.get_contents(filename, commit.sha).decoded_content.decode("utf8")
          if len(content) == 0:
              continue
          comments.append({"path": filename, "line": line,
                           "body": review(filename, content, ...)})
      if len(comments) > 0:
          handle_replies(...)
          pull.create_review(body="**ChatGPT code review**", event="COMMENT", comments=comments)
  \<close>
  \<open>split_on\<close> is \<^verbatim>\<open>str.split\<close> with a separator of one character. \<open>review_loop\<close> is
  the \<^verbatim>\<open>for\<close> loop of \<^verbatim>\<open>main\<close>, with the list \<^verbatim>\<open>comments\<close> as its state. \<open>main\<close>
  takes the value of \<^verbatim>\<open>--files\<close>, which is \<^verbatim>\<open>None\<close> when the flag is absent.
\<close>

fun split_on :: "char \<Rightarrow> string \<Rightarrow> string list" where
  "split_on sep [] = [[]]"
| "split_on sep (c # cs) =
     (if c = sep then [] # split_on sep cs
      else (case split_on sep cs of
              [] \<Rightarrow> [[c]]
            | piece # pieces \<Rightarrow> (c # piece) # pieces))"

fun review_loop ::
  "world \<Rightarrow> (string \<times> int \<times> commit) list \<Rightarrow> review_comment list
     \<Rightarrow> (error + review_comment list) \<times> event list" where
  "review_loop w [] comments = (Inr comments, [])"
| "review_loop w ((fname, ln, c) # rest) comments =
     (case get_contents w fname (sha c) of
        Inl e \<Rightarrow> (Inl e, [GetContents fname (sha c)])
      | Inr content \<Rightarrow>
          if length content = 0
          then (case review_loop w rest comments of
                  (res, evs) \<Rightarrow> (res, GetContents fname (sha c) # evs))
          else (case review w fname content of
                  (Inl e, evs1) \<Rightarrow> (Inl e, GetContents fname (sha c) # evs1)
                | (Inr text, evs1) \<Rightarrow>
                    (case review_loop w rest
                            (comments @ [\<lparr>path = fname, line = ln, body = text\<rparr>]) of
                       (res, evs) \<Rightarrow> (res, GetContents fname (sha c) # evs1 @ evs))))"

definition main :: "world \<Rightarrow> matcher \<Rightarrow> string option \<Rightarrow> error option \<times> event list" where
  "main w fnmatch files_arg =
     (case files_arg of
        None \<Rightarrow> (Some AttributeError, [])
      | Some s \<Rightarrow>
          (case files_for_review fnmatch (get_commits w) (split_on CHR '','' s) of
             Inl e \<Rightarrow> (Some e, [])
           | Inr records \<Rightarrow>
               (case review_loop w records [] of
                  (Inl e, evs) \<Rightarrow> (Some e, evs)
                | (Inr comments, evs) \<Rightarrow>
                    if length comments > 0
                    then (case handle_replies w of
                            (Some e, evs') \<Rightarrow> (Some e, evs @ evs')
                          | (None, evs') \<Rightarrow>
                              (create_review w ''**ChatGPT code review**'' ''COMMENT'' comments,
                               evs @ evs' @ [CreateReview ''**ChatGPT code review**'' ''COMMENT''
                                                comments]))
                    else (None, evs))))"

section \<open>Notions for the claims about the Reply Handler and the Orchestrator\<close>

text \<open>Kinds of events.\<close>

fun is_chat :: "event \<Rightarrow> bool" where
  "is_chat (ChatCompletion p) = True"
| "is_chat _ = False"

fun is_get_contents :: "event \<Rightarrow> bool" where
  "is_get_contents (GetContents fname commit_sha) = True"
| "is_get_contents _ = False"

fun is_create_review :: "event \<Rightarrow> bool" where
  "is_create_review (CreateReview title ev cs) = True"
| "is_create_review _ = False"



fun by_reply_handler :: "event \<Rightarrow> bool" where
  "by_reply_handler GetIssueComments = True"
| "by_reply_handler (Completion p) = True"
| "by_reply_handler (CreateReply j text) = True"
| "by_reply_handler (Print text) = True"
| "by_reply_handler _ = False"



text \<open>
  A record of the selector has content when fetching its file does not give the empty
  string; \<open>chat_call\<close> is the completion call that \<^verbatim>\<open>review\<close> issues for a record.
  \<open>produced\<close> are the Review Comments of a run of \<^verbatim>\<open>main\<close>: the list \<^verbatim>\<open>comments\<close>
  after the loop, or the exception that ended the run before.
\<close>

definition has_content :: "world \<Rightarrow> string \<times> int \<times> commit \<Rightarrow> bool" where
  "has_content w r = (get_contents w (fst r) (sha (snd (snd r))) \<noteq> Inr [])"

definition chat_call :: "world \<Rightarrow> string \<times> int \<times> commit \<Rightarrow> event" where
  "chat_call w r =
     ChatCompletion (prompt (fst r)
       (case get_contents w (fst r) (sha (snd (snd r))) of Inr content \<Rightarrow> content | Inl e \<Rightarrow> []))"

definition produced :: "world \<Rightarrow> matcher \<Rightarrow> string \<Rightarrow> error + review_comment list" where
  "produced w fnmatch s =
     (case files_for_review fnmatch (get_commits w) (split_on CHR '','' s) of
        Inl e \<Rightarrow> Inl e
      | Inr records \<Rightarrow> fst (review_loop w records []))"

section \<open>Example data\<close>

text \<open>
  A pull request of two commits: the first modifies \<^verbatim>\<open>a.py\<close> and removes
  \<^verbatim>\<open>old.py\<close>, the second adds \<^verbatim>\<open>b.ts\<close> and modifies \<^verbatim>\<open>a.py\<close> again.
\<close>

definition ex_commit1 :: commit where
  "ex_commit1 = \<lparr>sha = ''c1'', files =
     [\<lparr>filename = ''a.py'', status = ''modified'', patch = Some ''@@ -0,0 +1,10 @@''\<rparr>,
      \<lparr>filename = ''old.py'', status = ''removed'', patch = None\<rparr>]\<rparr>"

definition ex_commit2 :: commit where
  "ex_commit2 = \<lparr>sha = ''c2'', files =
     [\<lparr>filename = ''b.ts'', status = ''added'', patch = Some ''@@ -5,2 +5,3 @@''\<rparr>,
      \<lparr>filename = ''a.py'', status = ''modified'', patch = Some ''@@ -7,2 +7,3 @@''\<rparr>]\<rparr>"

text \<open>
  A commit whose entries are listed in neither alphabetical order nor the order of the
  patterns \<^verbatim>\<open>*.ts\<close>, \<^verbatim>\<open>*.py\<close>.
\<close>

definition ex_commit3 :: commit where
  "ex_commit3 = \<lparr>sha = ''c3'', files =
     [\<lparr>filename = ''z.py'', status = ''added'', patch = Some ''@@ -0,0 +1,3 @@''\<rparr>,
      \<lparr>filename = ''a.ts'', status = ''renamed'', patch = Some ''@@ -40,6 +40,7 @@''\<rparr>]\<rparr>"

text \<open>
  A comment listing: two comments of the bot (1 and 2), a reply by a person to each (3
  to 1, 4 to 2), and a comment of the bot that replies to 4. The services of the example
  answer every call.
\<close>

definition ex_comment :: "int \<Rightarrow> string \<Rightarrow> string \<Rightarrow> int option \<Rightarrow> issue_comment" where
  "ex_comment i login text parent =
     \<lparr>comment_id = i, user_login = login, comment_body = text, reply_to_id = parent,
      original_commit_id = ''c1'', comment_path = ''a.py'', original_position = 3,
      diff_hunk = ''@@ -0,0 +1,10 @@''\<rparr>"

definition ex_comments :: "issue_comment list" where
  "ex_comments =
     [ex_comment 1 ''github-actions[bot]'' ''review of a.py'' None,
      ex_comment 2 ''github-actions[bot]'' ''review of b.ts'' None,
      ex_comment 3 ''alice'' ''why?'' (Some 1),
      ex_comment 4 ''bob'' ''how?'' (Some 2),
      ex_comment 5 ''github-actions[bot]'' ''like this'' (Some 4)]"

definition ex_world :: world where
  "ex_world =
     \<lparr>get_commits = [ex_commit1, ex_commit2],
      get_contents = (\<lambda>fname commit_sha. if fname = ''b.ts'' then Inr [] else Inr ''x = 1''),
      chat_completion = (\<lambda>p. Inr ''looks fine''),
      get_issue_comments = ex_comments,
      completion = (\<lambda>p. Inr ''because''),
      create_reply = (\<lambda>i text. None),
      create_review = (\<lambda>title ev cs. None)\<rparr>"

text \<open>The same services with a repository in which every file is empty.\<close>

definition ex_world_empty :: world where
  "ex_world_empty = ex_world\<lparr>get_contents := (\<lambda>fname commit_sha. Inr [])\<rparr>"

section \<open>Facts about the Patch Parser\<close>

lemma is_digit_comma [simp]: "\<not> is_digit CHR '',''"
  by (simp add: is_digit_def)




lemma hunk_search_SomeD:
  assumes "hunk_search s = Some g"
  shows "\<exists>sg rest. (sg = CHR ''-'' \<or> sg = CHR ''+'') \<and> list_all is_digit g
           \<and> s = hunk_header sg g rest"
proof -
  from assms obtain a b c sg r where s: "s = a # b # c # sg # r"
    by (cases s rule: hunk_search.cases) auto
  from assms s have hd: "a = CHR ''@''" "b = CHR ''@''" "c = CHR '' ''"
      "sg = CHR ''-'' \<or> sg = CHR ''+''"
    by (auto split: if_splits)
  from assms s hd obtain t where dw: "dropWhile is_digit r = CHR '','' # t"
      and g: "g = takeWhile is_digit r"
    by (auto split: if_splits list.splits)
  have "r = takeWhile is_digit r @ dropWhile is_digit r" by simp
  with dw g have r: "r = g @ CHR '','' # t" by simp
  have "list_all is_digit g"
    unfolding g by (simp add: list_all_iff) (meson set_takeWhileD)
  with s hd r show ?thesis
    by (auto simp: hunk_header_def)
qed

lemma foldl_decimal_snoc:
  "foldl (\<lambda>acc c. 10 * acc + digit_val c) a (ds @ [d])
     = 10 * foldl (\<lambda>acc c. 10 * acc + digit_val c) a ds + digit_val d"
  by simp






text \<open>
  Claim C3. For every string that does not begin with \<^verbatim>\<open>@@ -<n>,\<close> or \<^verbatim>\<open>@@ +<n>,\<close>
  with \<open><n>\<close> a non-empty digit sequence, \<open>line_start_patch\<close> raises an error; it
  returns no default value.
\<close>

theorem line_start_patch_fails:
  assumes "\<not> (\<exists>sg ds rest. (sg = CHR ''-'' \<or> sg = CHR ''+'') \<and> ds \<noteq> []
                \<and> list_all is_digit ds \<and> s = hunk_header sg ds rest)"
  shows "\<exists>e. line_start_patch s = Inl e"
proof (cases "hunk_search s")
  case None
  then show ?thesis by (simp add: line_start_patch_def)
next
  case (Some g)
  from hunk_search_SomeD [OF Some] assms have "g = []" by blast
  with Some show ?thesis by (simp add: line_start_patch_def py_int_def)
qed

theorem line_start_patch_fails_witness:
  "(\<exists>e. line_start_patch ''diff --git a/x b/x'' = Inl e)
   \<and> (\<exists>e. line_start_patch ''@@ -,3 +1 @@'' = Inl e)
   \<and> (\<exists>e. line_start_patch ''@@ -12 +12 @@'' = Inl e)"
proof -
  have a: "\<not> (\<exists>sg ds rest. (sg = CHR ''-'' \<or> sg = CHR ''+'') \<and> ds \<noteq> []
                \<and> list_all is_digit ds \<and> ''diff --git a/x b/x'' = hunk_header sg ds rest)"
    by (simp add: hunk_header_def)
  have b: "\<not> (\<exists>sg ds rest. (sg = CHR ''-'' \<or> sg = CHR ''+'') \<and> ds \<noteq> []
                \<and> list_all is_digit ds \<and> ''@@ -,3 +1 @@'' = hunk_header sg ds rest)"
  proof
    assume "\<exists>sg ds rest. (sg = CHR ''-'' \<or> sg = CHR ''+'') \<and> ds \<noteq> []
                \<and> list_all is_digit ds \<and> ''@@ -,3 +1 @@'' = hunk_header sg ds rest"
    then obtain sg d ds rest where "list_all is_digit (d # ds)"
      and "''@@ -,3 +1 @@'' = hunk_header sg (d # ds) rest"
      by (auto simp: neq_Nil_conv)
    then show False by (auto simp: hunk_header_def is_digit_def)
  qed
  have c: "\<not> (\<exists>sg ds rest. (sg = CHR ''-'' \<or> sg = CHR ''+'') \<and> ds \<noteq> []
                \<and> list_all is_digit ds \<and> ''@@ -12 +12 @@'' = hunk_header sg ds rest)"
  proof
    assume "\<exists>sg ds rest. (sg = CHR ''-'' \<or> sg = CHR ''+'') \<and> ds \<noteq> []
                \<and> list_all is_digit ds \<and> ''@@ -12 +12 @@'' = hunk_header sg ds rest"
    then obtain sg ds rest where d: "list_all is_digit ds"
      and e: "''12 +12 @@'' = ds @ CHR '','' # rest"
      by (auto simp: hunk_header_def)
    from e have "CHR '','' \<in> set ''12 +12 @@''" by (metis in_set_conv_decomp)
    then show False by simp
  qed
  from line_start_patch_fails [OF a] line_start_patch_fails [OF b] line_start_patch_fails [OF c]
  show ?thesis by blast
qed

section \<open>Facts about the Prompt Builder\<close>

lemma ext_search_no_line_feed:
  assumes "CHR 0x0A \<notin> set name"
  shows "ext_search name = suffix_after_last_dot name"
proof -
  have "set (dropWhile (\<lambda>c. c \<noteq> CHR ''.'') (rev name)) \<subseteq> set name"
    using set_dropWhileD by fastforce
  with assms have "CHR 0x0A \<notin> set (dropWhile (\<lambda>c. c \<noteq> CHR ''.'') (rev name))"
    by blast
  moreover have "dropWhile (\<lambda>c. c \<noteq> CHR ''.'') (rev name) = [] \<longleftrightarrow> CHR ''.'' \<notin> set name"
    by (auto simp: dropWhile_eq_Nil_conv)
  ultimately show ?thesis
    by (simp add: ext_search_def suffix_after_last_dot_def Let_def)
qed

lemma prompt_code_no_line_feed:
  "CHR 0x0A \<notin> set name \<Longrightarrow> prompt_code name = spec_label name"
  by (simp add: prompt_code_def code_type_def spec_label_def ext_search_no_line_feed
      split: option.splits)

lemma prompt_code_exact:
  "prompt_code name =
     (if CHR 0x0A \<in> set (rev (dropWhile (\<lambda>c. c \<noteq> CHR ''.'') (rev name)))
      then ''code'' else spec_label name)"
proof -
  have "dropWhile (\<lambda>c. c \<noteq> CHR ''.'') (rev name) = [] \<longleftrightarrow> CHR ''.'' \<notin> set name"
    by (auto simp: dropWhile_eq_Nil_conv)
  then show ?thesis
    by (auto simp: prompt_code_def code_type_def spec_label_def ext_search_def
        suffix_after_last_dot_def Let_def)
qed

lemma prompt_code_examples:
  "prompt_code ''foo.py'' = ''Python code''"
  "prompt_code ''foo.bin'' = ''code''"
  "prompt_code ''Makefile'' = ''code''"
  "prompt_code ''a.JS'' = ''code''"
  "prompt_code ''x.tar.sh'' = ''Bash code''"
  by (simp_all add: prompt_code_def code_type_def ext_search_def)

text \<open>
  Claim C6. The Prompt Builder labels the code block by the case-sensitive suffix after
  the last dot of the file name, for every file name. The program misses the names with
  a line feed before their last dot: for the name made of \<^verbatim>\<open>a\<close>, a line feed and
  \<^verbatim>\<open>b.py\<close> the suffix after the last dot is \<^verbatim>\<open>py\<close>, and the label is the bare
  \<^verbatim>\<open>code\<close>.
\<close>

theorem prompt_code_line_feed:
  "suffix_after_last_dot (''a'' @ [CHR 0x0A] @ ''b.py'') = Some ''py''
   \<and> spec_label (''a'' @ [CHR 0x0A] @ ''b.py'') = ''Python code''
   \<and> code_type (''a'' @ [CHR 0x0A] @ ''b.py'') = None
   \<and> prompt_code (''a'' @ [CHR 0x0A] @ ''b.py'') = ''code''"
  by (simp add: prompt_code_def code_type_def ext_search_def spec_label_def
      suffix_after_last_dot_def)

section \<open>Facts about the Change Selector\<close>

subsection \<open>The dictionary\<close>

lemma truthy_dict_get: "truthy (dict_get changes key) \<longleftrightarrow> key \<in> fst ` set changes"
  by (induction changes key rule: dict_get.induct) (auto split: prod.splits)

lemma dict_set_new: "key \<notin> fst ` set changes \<Longrightarrow> dict_set changes key v = changes @ [(key, v)]"
  by (induction changes key v rule: dict_set.induct) auto

subsection \<open>The three loops are one pass over the entries\<close>

lemma patterns_loop_closed:
  "patterns_loop fm c f ps changes =
     (if (\<exists>p \<in> set ps. fm (filename f) p) \<and> filename f \<notin> fst ` set changes
      then (case patch_line (patch f) of
              Inl e \<Rightarrow> Inl e
            | Inr ln \<Rightarrow> Inr (changes @ [(filename f, (ln, c))]))
      else Inr changes)"
proof (induction ps arbitrary: changes)
  case Nil
  show ?case by simp
next
  case (Cons p ps)
  show ?case
  proof (cases "fm (filename f) p \<and> filename f \<notin> fst ` set changes")
    case True
    then show ?thesis
      by (cases "patch_line (patch f)")
         (simp_all add: Cons.IH truthy_dict_get dict_set_new)
  next
    case False
    then show ?thesis
      by (auto simp: Cons.IH truthy_dict_get)
  qed
qed

lemma select_append:
  "select fm ps (es @ es') seen =
     (case select fm ps es seen of
        Inl e \<Rightarrow> Inl e
      | Inr r \<Rightarrow>
          (case select fm ps es' (seen \<union> fst ` set r) of
             Inl e \<Rightarrow> Inl e
           | Inr r' \<Rightarrow> Inr (r @ r')))"
proof (induction es arbitrary: seen)
  case Nil
  show ?case by (simp split: sum.splits)
next
  case (Cons x es)
  obtain c f where x: "x = (c, f)" by (cases x)
  show ?case
    unfolding x by (simp add: Cons.IH Un_commute split: sum.splits)
qed

lemma files_loop_select:
  "files_loop fm ps c fs changes =
     (case select fm ps (map (Pair c) fs) (fst ` set changes) of
        Inl e \<Rightarrow> Inl e
      | Inr r \<Rightarrow> Inr (changes @ r))"
proof (induction fs arbitrary: changes)
  case Nil
  show ?case by simp
next
  case (Cons f fs)
  show ?case
    by (simp add: Cons.IH patterns_loop_closed counts_def split: sum.splits)
qed

lemma entries_Cons: "entries (c # cs) = map (Pair c) (files c) @ entries cs"
  by (simp add: entries_def)

lemma commits_loop_select:
  "commits_loop fm ps cs changes =
     (case select fm ps (entries cs) (fst ` set changes) of
        Inl e \<Rightarrow> Inl e
      | Inr r \<Rightarrow> Inr (changes @ r))"
proof (induction cs arbitrary: changes)
  case Nil
  show ?case by (simp add: entries_def)
next
  case (Cons c cs)
  show ?case
    by (simp add: Cons.IH entries_Cons select_append files_loop_select image_Un Un_commute
        split: sum.splits)
qed

lemma files_for_review_select:
  "files_for_review fm pull ps =
     (case select fm ps (entries pull) {} of
        Inl e \<Rightarrow> Inl e
      | Inr r \<Rightarrow> Inr (map (\<lambda>x. (fst x, max 1 (fst (snd x)), snd (snd x))) r))"
  by (simp add: files_for_review_def commits_loop_select split: sum.splits)

subsection \<open>What one pass records\<close>

lemma select_keys:
  "select fm ps es seen = Inr r \<Longrightarrow> distinct (map fst r) \<and> fst ` set r \<inter> seen = {}"
proof (induction es arbitrary: seen r)
  case Nil
  then show ?case by simp
next
  case (Cons x es)
  obtain c f where x: "x = (c, f)" by (cases x)
  show ?case
  proof (cases "counts fm ps f \<and> filename f \<notin> seen")
    case True
    with Cons.prems x obtain ln r' where
      r: "r = (filename f, (ln, c)) # r'"
      and r': "select fm ps es (insert (filename f) seen) = Inr r'"
      by (auto split: sum.splits)
    from Cons.IH [OF r'] True show ?thesis
      unfolding r by auto
  next
    case False
    with Cons.prems x have "select fm ps es seen = Inr r" by auto
    from Cons.IH [OF this] show ?thesis .
  qed
qed

lemma select_origin:
  assumes "select fm ps es seen = Inr r" and "(name, (ln, c)) \<in> set r"
  shows "\<exists>pre f post. es = pre @ (c, f) # post \<and> filename f = name
           \<and> counts fm ps f \<and> patch_line (patch f) = Inr ln
           \<and> (\<forall>x \<in> set pre. filename (snd x) = name \<longrightarrow> \<not> counts fm ps (snd x))"
  using assms
proof (induction es arbitrary: seen r)
  case Nil
  then show ?case by simp
next
  case (Cons x es)
  obtain c0 f0 where x: "x = (c0, f0)" by (cases x)
  show ?case
  proof (cases "counts fm ps f0 \<and> filename f0 \<notin> seen")
    case True
    with Cons.prems(1) x obtain l0 r' where
      r: "r = (filename f0, (l0, c0)) # r'"
      and l0: "patch_line (patch f0) = Inr l0"
      and r': "select fm ps es (insert (filename f0) seen) = Inr r'"
      by (auto split: sum.splits)
    show ?thesis
    proof (cases "(name, (ln, c)) = (filename f0, (l0, c0))")
      case True
      with \<open>counts fm ps f0 \<and> filename f0 \<notin> seen\<close> l0 x
      have "x # es = [] @ (c, f0) # es \<and> filename f0 = name \<and> counts fm ps f0
            \<and> patch_line (patch f0) = Inr ln
            \<and> (\<forall>y \<in> set []. filename (snd y) = name \<longrightarrow> \<not> counts fm ps (snd y))"
        by simp
      then show ?thesis by blast
    next
      case False
      with Cons.prems(2) r have mem: "(name, (ln, c)) \<in> set r'" by auto
      from Cons.IH [OF r' mem] obtain pre f post where
        es: "es = pre @ (c, f) # post" and f: "filename f = name" "counts fm ps f"
          "patch_line (patch f) = Inr ln"
        and pre: "\<forall>y \<in> set pre. filename (snd y) = name \<longrightarrow> \<not> counts fm ps (snd y)"
        by blast
      from select_keys [OF r'] mem have "name \<noteq> filename f0" by force
      with es f pre x
      have "x # es = (x # pre) @ (c, f) # post \<and> filename f = name \<and> counts fm ps f
            \<and> patch_line (patch f) = Inr ln
            \<and> (\<forall>y \<in> set (x # pre). filename (snd y) = name \<longrightarrow> \<not> counts fm ps (snd y))"
        by simp
      then show ?thesis by blast
    qed
  next
    case False
    with Cons.prems(1) x have r': "select fm ps es seen = Inr r" by auto
    from Cons.IH [OF r' Cons.prems(2)] obtain pre f post where
      es: "es = pre @ (c, f) # post" and f: "filename f = name" "counts fm ps f"
        "patch_line (patch f) = Inr ln"
      and pre: "\<forall>y \<in> set pre. filename (snd y) = name \<longrightarrow> \<not> counts fm ps (snd y)"
      by blast
    from select_keys [OF r'] Cons.prems(2) have "name \<notin> seen" by force
    with False x have "filename f0 = name \<longrightarrow> \<not> counts fm ps f0" by auto
    with es f pre x
    have "x # es = (x # pre) @ (c, f) # post \<and> filename f = name \<and> counts fm ps f
          \<and> patch_line (patch f) = Inr ln
          \<and> (\<forall>y \<in> set (x # pre). filename (snd y) = name \<longrightarrow> \<not> counts fm ps (snd y))"
      by simp
    then show ?thesis by blast
  qed
qed

lemma select_order:
  "select fm ps es seen = Inr r \<Longrightarrow>
     map fst r = first_seen seen (map (\<lambda>x. filename (snd x)) (filter (\<lambda>x. counts fm ps (snd x)) es))"
proof (induction es arbitrary: seen r)
  case Nil
  then show ?case by simp
next
  case (Cons x es)
  obtain c f where x: "x = (c, f)" by (cases x)
  from Cons.prems show ?case
    unfolding x by (auto split: if_splits sum.splits dest: Cons.IH)
qed

lemma set_first_seen: "set (first_seen seen xs) = set xs - seen"
  by (induction seen xs rule: first_seen.induct) auto

lemma select_complete:
  assumes "select fm ps es seen = Inr r" and "(c, f) \<in> set es" and "counts fm ps f"
    and "filename f \<notin> seen"
  shows "filename f \<in> fst ` set r"
proof -
  have "fst ` set r = set (map fst r)" by simp
  also have "\<dots> = set (map (\<lambda>x. filename (snd x)) (filter (\<lambda>x. counts fm ps (snd x)) es)) - seen"
    by (simp only: select_order [OF assms(1)] set_first_seen)
  finally show ?thesis using assms(2-4) by force
qed

lemma select_succeeds:
  "\<forall>x \<in> set es. counts fm ps (snd x) \<longrightarrow> (\<exists>ln. patch_line (patch (snd x)) = Inr ln)
     \<Longrightarrow> \<exists>r. select fm ps es seen = Inr r"
proof (induction es arbitrary: seen)
  case Nil
  show ?case by simp
next
  case (Cons x es)
  obtain c f where x: "x = (c, f)" by (cases x)
  from Cons.prems have rest: "\<forall>x \<in> set es. counts fm ps (snd x) \<longrightarrow> (\<exists>ln. patch_line (patch (snd x)) = Inr ln)"
    by simp
  show ?case
  proof (cases "counts fm ps f \<and> filename f \<notin> seen")
    case True
    with Cons.prems x obtain ln where "patch_line (patch f) = Inr ln" by auto
    moreover from Cons.IH [OF rest] obtain r' where
      "select fm ps es (insert (filename f) seen) = Inr r'" by blast
    ultimately show ?thesis using True x by simp
  next
    case False
    from Cons.IH [OF rest] obtain r' where "select fm ps es seen = Inr r'" by blast
    with False x show ?thesis by auto
  qed
qed

lemma select_patterns_set:
  "set ps = set ps' \<Longrightarrow> select fm ps es seen = select fm ps' es seen"
proof (induction es arbitrary: seen)
  case Nil
  show ?case by simp
next
  case (Cons x es)
  obtain c f where x: "x = (c, f)" by (cases x)
  from Cons.prems have "counts fm ps f = counts fm ps' f" by (simp add: counts_def)
  then show ?case unfolding x by (simp add: Cons.IH [OF Cons.prems] split: sum.splits)
qed

subsection \<open>From the entries back to the commits\<close>

lemma entries_split:
  "entries cs = pre @ (c, f) # post \<Longrightarrow>
     \<exists>before after fpre fpost. cs = before @ c # after \<and> files c = fpre @ f # fpost
        \<and> pre = entries before @ map (Pair c) fpre"
proof (induction cs arbitrary: pre)
  case Nil
  then show ?case by (simp add: entries_def)
next
  case (Cons c0 cs)
  from Cons.prems have eq: "map (Pair c0) (files c0) @ entries cs = pre @ (c, f) # post"
    by (simp add: entries_Cons)
  then obtain us where
    "(map (Pair c0) (files c0) = pre @ us \<and> us @ entries cs = (c, f) # post)
     \<or> (map (Pair c0) (files c0) @ us = pre \<and> entries cs = us @ (c, f) # post)"
    unfolding append_eq_append_conv2 by blast
  then consider (here) us where "map (Pair c0) (files c0) = pre @ (c, f) # us"
    | (later) us where "pre = map (Pair c0) (files c0) @ us" "entries cs = us @ (c, f) # post"
    by (cases us) auto
  then show ?case
  proof cases
    case here
    then obtain fpre fpost where "files c0 = fpre @ f # fpost" "pre = map (Pair c0) fpre" "c = c0"
      by (auto simp: map_eq_append_conv map_eq_Cons_conv)
    then have "c0 # cs = [] @ c # cs \<and> files c = fpre @ f # fpost
               \<and> pre = entries [] @ map (Pair c) fpre"
      by (simp add: entries_def)
    then show ?thesis by blast
  next
    case later
    from Cons.IH [OF later(2)] obtain before after fpre fpost where
      "cs = before @ c # after" "files c = fpre @ f # fpost"
      "us = entries before @ map (Pair c) fpre"
      by blast
    with later(1) have "c0 # cs = (c0 # before) @ c # after \<and> files c = fpre @ f # fpost
               \<and> pre = entries (c0 # before) @ map (Pair c) fpre"
      by (simp add: entries_Cons)
    then show ?thesis by blast
  qed
qed

lemma set_entries: "set (entries cs) = {(c, f). c \<in> set cs \<and> f \<in> set (files c)}"
  by (auto simp: entries_def)

subsection \<open>Every record of a run\<close>

lemma files_for_review_record:
  assumes "files_for_review fm pull ps = Inr out" and "(name, l, c) \<in> set out"
  shows "\<exists>before after fpre f fpost ln.
           pull = before @ c # after
           \<and> (\<forall>c' \<in> set before. \<not> commit_counts fm ps name c')
           \<and> files c = fpre @ f # fpost
           \<and> (\<forall>f' \<in> set fpre. filename f' = name \<longrightarrow> \<not> counts fm ps f')
           \<and> filename f = name \<and> counts fm ps f
           \<and> patch_line (patch f) = Inr ln \<and> l = max 1 ln"
proof -
  from assms(1) obtain r where r: "select fm ps (entries pull) {} = Inr r"
    and out: "out = map (\<lambda>x. (fst x, max 1 (fst (snd x)), snd (snd x))) r"
    by (auto simp: files_for_review_select split: sum.splits)
  from assms(2) out obtain ln where mem: "(name, (ln, c)) \<in> set r" and l: "l = max 1 ln"
    by auto
  from select_origin [OF r mem] obtain pre f post where
    es: "entries pull = pre @ (c, f) # post" and f: "filename f = name" "counts fm ps f"
      "patch_line (patch f) = Inr ln"
    and pre: "\<forall>y \<in> set pre. filename (snd y) = name \<longrightarrow> \<not> counts fm ps (snd y)"
    by blast
  from entries_split [OF es] obtain before after fpre fpost where
    pull: "pull = before @ c # after" and fs: "files c = fpre @ f # fpost"
    and pre_eq: "pre = entries before @ map (Pair c) fpre"
    by blast
  have "\<forall>c' \<in> set before. \<not> commit_counts fm ps name c'"
  proof
    fix c' assume c': "c' \<in> set before"
    show "\<not> commit_counts fm ps name c'"
    proof
      assume "commit_counts fm ps name c'"
      then obtain f' where f': "f' \<in> set (files c')" "filename f' = name" "counts fm ps f'"
        by (auto simp: commit_counts_def)
      with c' have "(c', f') \<in> set pre" by (simp add: pre_eq set_entries)
      with pre f' show False by force
    qed
  qed
  moreover have "\<forall>f' \<in> set fpre. filename f' = name \<longrightarrow> \<not> counts fm ps f'"
  proof
    fix f' assume "f' \<in> set fpre"
    then have "(c, f') \<in> set pre" by (simp add: pre_eq)
    with pre show "filename f' = name \<longrightarrow> \<not> counts fm ps f'" by force
  qed
  ultimately show ?thesis using pull fs f l by blast
qed

lemma files_for_review_names:
  assumes "files_for_review fm pull ps = Inr out"
  shows "distinct (map fst out)"
    and "map fst out = first_seen {} (map (\<lambda>x. filename (snd x))
                         (filter (\<lambda>x. counts fm ps (snd x)) (entries pull)))"
proof -
  from assms obtain r where r: "select fm ps (entries pull) {} = Inr r"
    and out: "out = map (\<lambda>x. (fst x, max 1 (fst (snd x)), snd (snd x))) r"
    by (auto simp: files_for_review_select split: sum.splits)
  have names: "map fst out = map fst r" by (simp add: out comp_def)
  from select_keys [OF r] names show "distinct (map fst out)" by simp
  from select_order [OF r] names
  show "map fst out = first_seen {} (map (\<lambda>x. filename (snd x))
                         (filter (\<lambda>x. counts fm ps (snd x)) (entries pull)))"
    by simp
qed

lemma files_for_review_complete:
  assumes "files_for_review fm pull ps = Inr out" and "c \<in> set pull"
    and "commit_counts fm ps name c"
  shows "name \<in> fst ` set out"
proof -
  from assms(3) obtain f where f: "f \<in> set (files c)" "filename f = name" "counts fm ps f"
    by (auto simp: commit_counts_def)
  with assms(2) have "(c, f) \<in> set (entries pull)" by (simp add: set_entries)
  with f have "name \<in> set (map (\<lambda>x. filename (snd x))
                         (filter (\<lambda>x. counts fm ps (snd x)) (entries pull)))"
    by force
  then have "name \<in> set (map fst out)"
    by (simp only: files_for_review_names(2) [OF assms(1)] set_first_seen) simp
  then show ?thesis by simp
qed

lemma files_for_review_returns:
  assumes "\<forall>c \<in> set pull. \<forall>f \<in> set (files c).
             counts fm ps f \<longrightarrow> (\<exists>ln. patch_line (patch f) = Inr ln)"
  shows "\<exists>out. files_for_review fm pull ps = Inr out"
proof -
  from assms have "\<forall>x \<in> set (entries pull). counts fm ps (snd x)
                      \<longrightarrow> (\<exists>ln. patch_line (patch (snd x)) = Inr ln)"
    by (auto simp: set_entries)
  from select_succeeds [OF this] obtain r where "select fm ps (entries pull) {} = Inr r"
    by blast
  then show ?thesis by (simp add: files_for_review_select)
qed

lemma example_run:
  "files_for_review glob [ex_commit1, ex_commit2] [''*.ts'', ''*.py'']
     = Inr [(''a.py'', 1, ex_commit1), (''b.ts'', 5, ex_commit2)]"
  by code_simp

text \<open>
  Claim C1. In the sequence that \<open>files_for_review\<close> returns every file name appears at
  most once, and the record of a name carries the first commit, in the order of the
  commit list, that has an entry for that name whose status is neither "unchanged" nor
  "removed" and whose path matches a pattern; every name with such an entry has a record.
\<close>

theorem files_for_review_first_commit:
  assumes "files_for_review fm pull ps = Inr out"
  shows "distinct (map fst out)
         \<and> (\<forall>(name, l, c) \<in> set out.
               \<exists>before after. pull = before @ c # after
                  \<and> commit_counts fm ps name c
                  \<and> (\<forall>c' \<in> set before. \<not> commit_counts fm ps name c'))
         \<and> (\<forall>c \<in> set pull. \<forall>name. commit_counts fm ps name c \<longrightarrow> name \<in> fst ` set out)"
proof (intro conjI)
  show "distinct (map fst out)" by (rule files_for_review_names(1) [OF assms])
next
  show "\<forall>(name, l, c) \<in> set out.
          \<exists>before after. pull = before @ c # after
             \<and> commit_counts fm ps name c
             \<and> (\<forall>c' \<in> set before. \<not> commit_counts fm ps name c')"
  proof (clarify)
    fix name l c assume "(name, l, c) \<in> set out"
    from files_for_review_record [OF assms this] obtain before after fpre f fpost where
      "pull = before @ c # after" "\<forall>c' \<in> set before. \<not> commit_counts fm ps name c'"
      "files c = fpre @ f # fpost" "filename f = name" "counts fm ps f"
      by blast
    moreover from this have "commit_counts fm ps name c"
      by (auto simp: commit_counts_def)
    ultimately show "\<exists>before after. pull = before @ c # after
             \<and> commit_counts fm ps name c
             \<and> (\<forall>c' \<in> set before. \<not> commit_counts fm ps name c')"
      by blast
  qed
next
  show "\<forall>c \<in> set pull. \<forall>name. commit_counts fm ps name c \<longrightarrow> name \<in> fst ` set out"
    using files_for_review_complete [OF assms] by blast
qed

theorem files_for_review_first_commit_witness:
  "files_for_review glob [ex_commit1, ex_commit2] [''*.ts'', ''*.py'']
     = Inr [(''a.py'', 1, ex_commit1), (''b.ts'', 5, ex_commit2)]
   \<and> distinct (map fst [(''a.py'', 1::int, ex_commit1), (''b.ts'', 5, ex_commit2)])
   \<and> commit_counts glob [''*.ts'', ''*.py''] ''a.py'' ex_commit1
   \<and> commit_counts glob [''*.ts'', ''*.py''] ''a.py'' ex_commit2
   \<and> (\<exists>before after. [ex_commit1, ex_commit2] = before @ ex_commit1 # after
         \<and> (\<forall>c' \<in> set before. \<not> commit_counts glob [''*.ts'', ''*.py''] ''a.py'' c'))"
proof -
  note t = files_for_review_first_commit [OF example_run]
  from t have "distinct (map fst [(''a.py'', 1::int, ex_commit1), (''b.ts'', 5, ex_commit2)])"
    by blast
  moreover from t have "\<exists>before after. [ex_commit1, ex_commit2] = before @ ex_commit1 # after
         \<and> commit_counts glob [''*.ts'', ''*.py''] ''a.py'' ex_commit1
         \<and> (\<forall>c' \<in> set before. \<not> commit_counts glob [''*.ts'', ''*.py''] ''a.py'' c')"
    by simp
  moreover have "commit_counts glob [''*.ts'', ''*.py''] ''a.py'' ex_commit2"
    by (simp add: commit_counts_def counts_def ex_commit2_def)
  ultimately show ?thesis using example_run by blast
qed

subsection \<open>Entries that are skipped\<close>

lemma select_relabel:
  "select fm ps (map (\<lambda>x. (g (fst x), snd x)) es) seen
     = map_sum id (map (\<lambda>x. (fst x, fst (snd x), g (snd (snd x))))) (select fm ps es seen)"
proof (induction es arbitrary: seen)
  case Nil
  show ?case by simp
next
  case (Cons x es)
  obtain c f where x: "x = (c, f)" by (cases x)
  show ?case unfolding x by (simp add: Cons.IH split: sum.splits)
qed

lemma select_filter_status:
  "select fm ps (filter (\<lambda>x. status (snd x) \<noteq> ''unchanged'' \<and> status (snd x) \<noteq> ''removed'') es) seen
     = select fm ps es seen"
proof (induction es arbitrary: seen)
  case Nil
  show ?case by simp
next
  case (Cons x es)
  obtain c f where x: "x = (c, f)" by (cases x)
  show ?case unfolding x by (auto simp: Cons.IH counts_def split: sum.splits)
qed

lemma entries_without_skipped:
  "entries (map without_skipped cs)
     = map (\<lambda>x. (without_skipped (fst x), snd x))
         (filter (\<lambda>x. status (snd x) \<noteq> ''unchanged'' \<and> status (snd x) \<noteq> ''removed'') (entries cs))"
  by (induction cs) (simp_all add: entries_def without_skipped_def filter_map comp_def)

lemma sha_without_skipped: "sha (without_skipped c) = sha c"
  by (simp add: without_skipped_def)

lemma files_for_review_without_skipped:
  "map_sum id (map (\<lambda>x. (fst x, fst (snd x), sha (snd (snd x)))))
       (files_for_review fm (map without_skipped pull) ps)
   = map_sum id (map (\<lambda>x. (fst x, fst (snd x), sha (snd (snd x)))))
       (files_for_review fm pull ps)"
  by (cases "select fm ps (entries pull) {}")
     (simp_all add: files_for_review_select entries_without_skipped select_relabel
        select_filter_status sha_without_skipped comp_def)

text \<open>
  Claim C4. No entry whose status is "removed" or "unchanged" contributes a record to
  the output of \<open>files_for_review\<close>, also when its path matches a pattern: the names,
  lines and commit hashes returned (or the failure) are the same as for the pull request
  without these entries, every record comes from an entry of its commit with another
  status, and a name that has entries of these two statuses only has no record.
\<close>

theorem files_for_review_skips:
  "map_sum id (map (\<lambda>x. (fst x, fst (snd x), sha (snd (snd x)))))
        (files_for_review fm (map without_skipped pull) ps)
     = map_sum id (map (\<lambda>x. (fst x, fst (snd x), sha (snd (snd x)))))
        (files_for_review fm pull ps)
   \<and> (\<forall>out. files_for_review fm pull ps = Inr out \<longrightarrow>
         (\<forall>(name, l, c) \<in> set out.
             c \<in> set pull
             \<and> (\<exists>f \<in> set (files c). filename f = name
                    \<and> status f \<noteq> ''removed'' \<and> status f \<noteq> ''unchanged''
                    \<and> (\<exists>p \<in> set ps. fm (filename f) p)))
         \<and> (\<forall>name. (\<forall>c \<in> set pull. \<forall>f \<in> set (files c).
                        filename f = name \<longrightarrow> status f = ''removed'' \<or> status f = ''unchanged'')
                     \<longrightarrow> name \<notin> fst ` set out))"
proof (intro conjI allI impI)
  show "map_sum id (map (\<lambda>x. (fst x, fst (snd x), sha (snd (snd x)))))
        (files_for_review fm (map without_skipped pull) ps)
     = map_sum id (map (\<lambda>x. (fst x, fst (snd x), sha (snd (snd x)))))
        (files_for_review fm pull ps)"
    by (rule files_for_review_without_skipped)
next
  fix out assume run: "files_for_review fm pull ps = Inr out"
  show "\<forall>(name, l, c) \<in> set out.
             c \<in> set pull
             \<and> (\<exists>f \<in> set (files c). filename f = name
                    \<and> status f \<noteq> ''removed'' \<and> status f \<noteq> ''unchanged''
                    \<and> (\<exists>p \<in> set ps. fm (filename f) p))"
  proof (clarify)
    fix name l c assume "(name, l, c) \<in> set out"
    from files_for_review_record [OF run this] obtain before after fpre f fpost where
      "pull = before @ c # after" "files c = fpre @ f # fpost" "filename f = name"
      "counts fm ps f"
      by blast
    then have "c \<in> set pull" "f \<in> set (files c)" "filename f = name"
      "status f \<noteq> ''removed''" "status f \<noteq> ''unchanged''" "\<exists>p \<in> set ps. fm (filename f) p"
      by (simp_all add: counts_def)
    then show "c \<in> set pull
             \<and> (\<exists>f \<in> set (files c). filename f = name
                    \<and> status f \<noteq> ''removed'' \<and> status f \<noteq> ''unchanged''
                    \<and> (\<exists>p \<in> set ps. fm (filename f) p))"
      by blast
  qed
next
  fix out name
  assume run: "files_for_review fm pull ps = Inr out"
    and skipped: "\<forall>c \<in> set pull. \<forall>f \<in> set (files c).
                    filename f = name \<longrightarrow> status f = ''removed'' \<or> status f = ''unchanged''"
  show "name \<notin> fst ` set out"
  proof
    assume "name \<in> fst ` set out"
    then obtain l c where "(name, l, c) \<in> set out" by force
    from files_for_review_record [OF run this] obtain before after fpre f fpost where
      "pull = before @ c # after" "files c = fpre @ f # fpost" "filename f = name"
      "counts fm ps f"
      by blast
    then have "c \<in> set pull" "f \<in> set (files c)" "filename f = name"
      "status f \<noteq> ''removed''" "status f \<noteq> ''unchanged''"
      by (simp_all add: counts_def)
    with skipped show False by blast
  qed
qed

theorem files_for_review_skips_witness:
  "files_for_review glob [ex_commit1, ex_commit2] [''*.ts'', ''*.py'']
     = Inr [(''a.py'', 1, ex_commit1), (''b.ts'', 5, ex_commit2)]
   \<and> \<lparr>filename = ''old.py'', status = ''removed'', patch = None\<rparr> \<in> set (files ex_commit1)
   \<and> glob ''old.py'' ''*.py''
   \<and> ''old.py'' \<notin> fst ` set [(''a.py'', 1::int, ex_commit1), (''b.ts'', 5, ex_commit2)]
   \<and> map_sum id (map (\<lambda>x. (fst x, fst (snd x), sha (snd (snd x)))))
        (files_for_review glob (map without_skipped [ex_commit1, ex_commit2]) [''*.ts'', ''*.py''])
       = Inr [(''a.py'', 1, ''c1''), (''b.ts'', 5, ''c2'')]"
proof -
  note t = files_for_review_skips [of glob "[ex_commit1, ex_commit2]" "[''*.ts'', ''*.py'']"]
  have only: "\<forall>c \<in> set [ex_commit1, ex_commit2]. \<forall>f \<in> set (files c).
                filename f = ''old.py'' \<longrightarrow> status f = ''removed'' \<or> status f = ''unchanged''"
    by (simp add: ex_commit1_def ex_commit2_def)
  from t example_run only
  have "''old.py'' \<notin> fst ` set [(''a.py'', 1::int, ex_commit1), (''b.ts'', 5, ex_commit2)]"
    by blast
  moreover from t example_run
  have "map_sum id (map (\<lambda>x. (fst x, fst (snd x), sha (snd (snd x)))))
        (files_for_review glob (map without_skipped [ex_commit1, ex_commit2]) [''*.ts'', ''*.py''])
       = Inr [(''a.py'', 1, ''c1''), (''b.ts'', 5, ''c2'')]"
    by (simp add: ex_commit1_def ex_commit2_def)
  moreover have "\<lparr>filename = ''old.py'', status = ''removed'', patch = None\<rparr> \<in> set (files ex_commit1)"
    by (simp add: ex_commit1_def)
  moreover have "glob ''old.py'' ''*.py''" by simp
  ultimately show ?thesis using example_run by blast
qed

subsection \<open>The line of a record\<close>

lemma patch_line_nonneg: "patch_line p = Inr ln \<Longrightarrow> 0 \<le> ln"
  by (auto simp: patch_line_def line_start_patch_def py_int_def
      split: option.splits if_splits)

text \<open>
  Claim C5. The line of every record that \<open>files_for_review\<close> returns is the number
  parsed from the hunk header of the entry that was recorded (the first entry of that
  name in the record's commit that counts), raised to 1 when it is smaller: a parsed 0
  gives 1, a parsed number from 1 on is kept, and every line is at least 1.
\<close>

theorem files_for_review_line:
  assumes "files_for_review fm pull ps = Inr out"
  shows "\<forall>(name, l, c) \<in> set out.
           1 \<le> l
           \<and> (\<exists>fpre f fpost ln.
                 files c = fpre @ f # fpost
                 \<and> (\<forall>f' \<in> set fpre. filename f' = name \<longrightarrow> \<not> counts fm ps f')
                 \<and> filename f = name \<and> counts fm ps f
                 \<and> patch_line (patch f) = Inr ln
                 \<and> l = max 1 ln \<and> (ln \<le> 0 \<longrightarrow> l = 1) \<and> (1 \<le> ln \<longrightarrow> l = ln))"
proof (clarify)
  fix name l c assume "(name, l, c) \<in> set out"
  from files_for_review_record [OF assms this] obtain fpre f fpost ln where
    f: "files c = fpre @ f # fpost"
      "\<forall>f' \<in> set fpre. filename f' = name \<longrightarrow> \<not> counts fm ps f'"
      "filename f = name" "counts fm ps f" "patch_line (patch f) = Inr ln"
    and l: "l = max 1 ln"
    by blast
  from l have "1 \<le> l" "ln \<le> 0 \<longrightarrow> l = 1" "1 \<le> ln \<longrightarrow> l = ln" by auto
  with f l show "1 \<le> l
           \<and> (\<exists>fpre f fpost ln.
                 files c = fpre @ f # fpost
                 \<and> (\<forall>f' \<in> set fpre. filename f' = name \<longrightarrow> \<not> counts fm ps f')
                 \<and> filename f = name \<and> counts fm ps f
                 \<and> patch_line (patch f) = Inr ln
                 \<and> l = max 1 ln \<and> (ln \<le> 0 \<longrightarrow> l = 1) \<and> (1 \<le> ln \<longrightarrow> l = ln))"
    by blast
qed

theorem files_for_review_line_witness:
  "files_for_review glob [ex_commit1, ex_commit2] [''*.ts'', ''*.py'']
     = Inr [(''a.py'', 1, ex_commit1), (''b.ts'', 5, ex_commit2)]
   \<and> patch_line (Some ''@@ -0,0 +1,10 @@'') = Inr 0
   \<and> patch_line (Some ''@@ -5,2 +5,3 @@'') = Inr 5
   \<and> (\<exists>fpre f fpost ln. files ex_commit1 = fpre @ f # fpost \<and> filename f = ''a.py''
         \<and> patch_line (patch f) = Inr ln \<and> (1::int) = max 1 ln)
   \<and> (\<exists>fpre f fpost ln. files ex_commit2 = fpre @ f # fpost \<and> filename f = ''b.ts''
         \<and> patch_line (patch f) = Inr ln \<and> (5::int) = max 1 ln)"
proof -
  note t = files_for_review_line [OF example_run]
  from t have "\<exists>fpre f fpost ln. files ex_commit1 = fpre @ f # fpost \<and> filename f = ''a.py''
         \<and> patch_line (patch f) = Inr ln \<and> (1::int) = max 1 ln"
    by simp blast
  moreover from t have "\<exists>fpre f fpost ln. files ex_commit2 = fpre @ f # fpost \<and> filename f = ''b.ts''
         \<and> patch_line (patch f) = Inr ln \<and> (5::int) = max 1 ln"
    by simp blast
  moreover have "patch_line (Some ''@@ -0,0 +1,10 @@'') = Inr 0"
    "patch_line (Some ''@@ -5,2 +5,3 @@'') = Inr 5"
    by (simp_all add: patch_line_def line_start_patch_def py_int_def is_digit_def digit_val_def)
  ultimately show ?thesis using example_run by blast
qed

subsection \<open>The order of the records\<close>

lemma files_for_review_patterns_set:
  "set ps' = set ps \<Longrightarrow> files_for_review fm pull ps' = files_for_review fm pull ps"
  by (simp add: files_for_review_select select_patterns_set [of ps' ps])

lemma example_order_run:
  "files_for_review glob [ex_commit3, ex_commit1] [''*.ts'', ''*.py'']
     = Inr [(''z.py'', 1, ex_commit3), (''a.ts'', 40, ex_commit3), (''a.py'', 1, ex_commit1)]"
  by code_simp

text \<open>
  Claim C10. The result of \<open>files_for_review\<close> is determined by the commit list, the
  entries of the commits and the patterns, and its records stand in the order in which
  their names were first recorded: the names are the first occurrences, in the order in
  which the loops visit the entries, of the names of the entries that count. The order
  of the patterns plays no part, nor does the alphabet.
\<close>

theorem files_for_review_order:
  "(\<forall>ps'. set ps' = set ps \<longrightarrow> files_for_review fm pull ps' = files_for_review fm pull ps)
   \<and> (\<forall>out. files_for_review fm pull ps = Inr out \<longrightarrow>
         map fst out = first_seen {} (map (\<lambda>x. filename (snd x))
                          (filter (\<lambda>x. counts fm ps (snd x)) (entries pull))))"
  using files_for_review_patterns_set [of _ ps fm pull] files_for_review_names(2) [of fm pull ps]
  by blast

theorem files_for_review_order_witness:
  "files_for_review glob [ex_commit3, ex_commit1] [''*.ts'', ''*.py'']
     = Inr [(''z.py'', 1, ex_commit3), (''a.ts'', 40, ex_commit3), (''a.py'', 1, ex_commit1)]
   \<and> files_for_review glob [ex_commit3, ex_commit1] [''*.py'', ''*.ts'', ''*.py'']
     = Inr [(''z.py'', 1, ex_commit3), (''a.ts'', 40, ex_commit3), (''a.py'', 1, ex_commit1)]
   \<and> first_seen {} (map (\<lambda>x. filename (snd x))
         (filter (\<lambda>x. counts glob [''*.ts'', ''*.py''] (snd x)) (entries [ex_commit3, ex_commit1])))
     = [''z.py'', ''a.ts'', ''a.py'']"
proof -
  note t = files_for_review_order [of "[''*.ts'', ''*.py'']" glob "[ex_commit3, ex_commit1]"]
  have "set [''*.py'', ''*.ts'', ''*.py''] = set [''*.ts'', ''*.py'']" by auto
  with t example_order_run
  have "files_for_review glob [ex_commit3, ex_commit1] [''*.py'', ''*.ts'', ''*.py'']
     = Inr [(''z.py'', 1, ex_commit3), (''a.ts'', 40, ex_commit3), (''a.py'', 1, ex_commit1)]"
    by metis
  moreover from t example_order_run
  have "first_seen {} (map (\<lambda>x. filename (snd x))
         (filter (\<lambda>x. counts glob [''*.ts'', ''*.py''] (snd x)) (entries [ex_commit3, ex_commit1])))
     = [''z.py'', ''a.ts'', ''a.py'']"
    by simp
  ultimately show ?thesis using example_order_run by blast
qed

section \<open>Facts about the Reply Handler\<close>

lemma for_each_all_None:
  "\<forall>x \<in> set xs. fst (step x) = None \<Longrightarrow>
     for_each step xs = (None, concat (map (\<lambda>x. snd (step x)) xs))"
proof (induction xs)
  case Nil
  show ?case by simp
next
  case (Cons x xs)
  obtain e where sx: "step x = (None, e)"
    using Cons.prems by (cases "step x") simp
  from Cons have "for_each step xs = (None, concat (map (\<lambda>x. snd (step x)) xs))"
    by simp
  with sx show ?case by simp
qed

lemma for_each_NoneD:
  "for_each step xs = (None, evs) \<Longrightarrow>
     (\<forall>x \<in> set xs. fst (step x) = None) \<and> evs = concat (map (\<lambda>x. snd (step x)) xs)"
proof (induction xs arbitrary: evs)
  case Nil
  then show ?case by simp
next
  case (Cons x xs)
  obtain r e where sx: "step x = (r, e)" by (cases "step x")
  obtain r' e' where rest: "for_each step xs = (r', e')" by (cases "for_each step xs")
  from Cons.prems sx rest have "r = None" "r' = None" "evs = e @ e'"
    by (auto split: option.splits)
  with Cons.IH [of e'] sx rest show ?case by simp
qed

lemma for_each_None:
  "for_each step xs = (None, evs) \<longleftrightarrow>
     (\<forall>x \<in> set xs. fst (step x) = None) \<and> evs = concat (map (\<lambda>x. snd (step x)) xs)"
  using for_each_NoneD [of step xs evs] for_each_all_None [of xs step] by auto


lemma for_each_succeeds:
  "\<forall>x \<in> set xs. fst (step x) = None \<Longrightarrow> fst (for_each step xs) = None"
  using for_each_None [of step xs "concat (map (\<lambda>x. snd (step x)) xs)"] by simp














lemma handle_replies_completes:
  assumes "\<forall>p. \<exists>text. completion w p = Inr text" and "\<forall>i text. create_reply w i text = None"
  shows "fst (handle_replies w) = None"
proof -
  have "fst (handle_reply w cs r) = None" for cs r
  proof -
    from assms(1) obtain answer where "completion w (reply_prompt r) = Inr answer" by blast
    with assms(2) show ?thesis by (simp add: handle_reply_def)
  qed
  then have "fst (handle_comment w cs c) = None" for cs c
    by (simp add: handle_comment_def for_each_succeeds)
  then have "fst (for_each (handle_comment w (get_issue_comments w)) (get_issue_comments w)) = None"
    by (simp add: for_each_succeeds)
  then show ?thesis by (simp add: handle_replies_def case_prod_unfold)
qed


lemma ex_world_replies: "fst (handle_replies ex_world) = None"
  by (rule handle_replies_completes) (simp_all add: ex_world_def)


section \<open>Facts about the Orchestrator\<close>

subsection \<open>The loop over the records\<close>

lemma review_events: "\<forall>e \<in> set (snd (review w fname content)). is_chat e"
  by (simp add: review_def split: sum.splits)

lemma review_chat:
  "snd (review w fname content) = [ChatCompletion (prompt fname content)]"
  by (simp add: review_def split: sum.splits)

lemma review_loop_events:
  "\<forall>e \<in> set (snd (review_loop w recs acc)). is_get_contents e \<or> is_chat e"
proof (induction w recs acc rule: review_loop.induct)
  case (1 w acc)
  show ?case by simp
next
  case (2 w fname ln c rest acc)
  show ?case
  proof (cases "get_contents w fname (sha c)")
    case (Inl e)
    then show ?thesis by simp
  next
    case (Inr content)
    show ?thesis
    proof (cases "length content = 0")
      case True
      with Inr 2(1) [OF Inr True] show ?thesis
        by (simp add: case_prod_unfold)
    next
      case False
      obtain res evs1 where rv: "review w fname content = (res, evs1)"
        by (cases "review w fname content")
      with review_chat [of w fname content] have evs1: "evs1 = [ChatCompletion (prompt fname content)]"
        by simp
      show ?thesis
      proof (cases res)
        case (Inl e)
        with Inr False rv evs1 show ?thesis by simp
      next
        case (Inr b)
        with \<open>get_contents w fname (sha c) = Inr content\<close> False rv evs1
          2(2) [OF \<open>get_contents w fname (sha c) = Inr content\<close> False rv [symmetric, unfolded Inr] refl]
        show ?thesis by (simp add: case_prod_unfold)
      qed
    qed
  qed
qed

lemma review_loop_fetch_fails:
  "get_contents w fname (sha c) = Inl e \<Longrightarrow>
     review_loop w ((fname, ln, c) # rest) acc = (Inl e, [GetContents fname (sha c)])"
  by simp

lemma review_loop_empty:
  "get_contents w fname (sha c) = Inr [] \<Longrightarrow>
     review_loop w ((fname, ln, c) # rest) acc
       = (fst (review_loop w rest acc), GetContents fname (sha c) # snd (review_loop w rest acc))"
  by (simp add: case_prod_unfold)

lemma review_loop_chat_fails:
  "get_contents w fname (sha c) = Inr content \<Longrightarrow> content \<noteq> [] \<Longrightarrow>
   chat_completion w (prompt fname content) = Inl e \<Longrightarrow>
     review_loop w ((fname, ln, c) # rest) acc
       = (Inl e, [GetContents fname (sha c), ChatCompletion (prompt fname content)])"
  by (simp add: review_def)

lemma review_loop_chat:
  "get_contents w fname (sha c) = Inr content \<Longrightarrow> content \<noteq> [] \<Longrightarrow>
   chat_completion w (prompt fname content) = Inr answer \<Longrightarrow>
     review_loop w ((fname, ln, c) # rest) acc
       = (fst (review_loop w rest
                 (acc @ [\<lparr>path = fname, line = ln,
                          body = ''*ChatGPT review for '' @ fname @ '':*\<newline>'' @ answer\<rparr>])),
          GetContents fname (sha c) # ChatCompletion (prompt fname content)
            # snd (review_loop w rest
                 (acc @ [\<lparr>path = fname, line = ln,
                          body = ''*ChatGPT review for '' @ fname @ '':*\<newline>'' @ answer\<rparr>])))"
  by (simp add: review_def case_prod_unfold)

lemma record_cases [case_names fetch_fails empty chat_fails chat]:
  obtains e where "get_contents w fname (sha c) = Inl e"
  | "get_contents w fname (sha c) = Inr []"
  | content e where "get_contents w fname (sha c) = Inr content" "content \<noteq> []"
      "chat_completion w (prompt fname content) = Inl e"
  | content answer where "get_contents w fname (sha c) = Inr content" "content \<noteq> []"
      "chat_completion w (prompt fname content) = Inr answer"
proof (cases "get_contents w fname (sha c)")
  case (Inl e)
  then show ?thesis by (rule that(1))
next
  case (Inr content)
  show ?thesis
  proof (cases "content = []")
    case True
    with Inr show ?thesis by (simp add: that(2))
  next
    case False
    with Inr show ?thesis
      by (cases "chat_completion w (prompt fname content)") (auto intro: that(3) that(4))
  qed
qed

lemma review_loop_without_empty:
  "fst (review_loop w recs acc) = fst (review_loop w (filter (has_content w) recs) acc)
   \<and> filter (\<lambda>e. \<not> is_get_contents e) (snd (review_loop w recs acc))
       = filter (\<lambda>e. \<not> is_get_contents e) (snd (review_loop w (filter (has_content w) recs) acc))"
proof (induction recs arbitrary: acc)
  case Nil
  show ?case by simp
next
  case (Cons r recs)
  obtain fname ln c where r: "r = (fname, ln, c)" by (cases r)
  show ?case
  proof (cases w fname c rule: record_cases)
    case (fetch_fails e)
    then show ?thesis
      unfolding r by (simp add: has_content_def)
  next
    case empty
    then have "\<not> has_content w (fname, ln, c)" by (simp add: has_content_def)
    with empty Cons.IH [of acc] show ?thesis
      unfolding r by (simp del: review_loop.simps add: review_loop_empty [OF empty])
  next
    case (chat_fails content e)
    then have "has_content w (fname, ln, c)" by (simp add: has_content_def)
    with chat_fails show ?thesis
      unfolding r by (simp del: review_loop.simps add: review_loop_chat_fails [OF chat_fails])
  next
    case (chat content answer)
    then have "has_content w (fname, ln, c)" by (simp add: has_content_def)
    with chat Cons.IH show ?thesis
      unfolding r by (simp del: review_loop.simps add: review_loop_chat [OF chat])
  qed
qed

lemma review_loop_calls:
  "\<exists>rest. map (chat_call w) (filter (has_content w) recs)
            = filter is_chat (snd (review_loop w recs acc)) @ rest"
proof (induction recs arbitrary: acc)
  case Nil
  show ?case by simp
next
  case (Cons r recs)
  obtain fname ln c where r: "r = (fname, ln, c)" by (cases r)
  show ?case
  proof (cases w fname c rule: record_cases)
    case (fetch_fails e)
    then show ?thesis
      unfolding r by (simp del: review_loop.simps add: review_loop_fetch_fails [OF fetch_fails])
  next
    case empty
    then have "\<not> has_content w (fname, ln, c)" by (simp add: has_content_def)
    with empty Cons.IH [of acc] show ?thesis
      unfolding r by (simp del: review_loop.simps add: review_loop_empty [OF empty])
  next
    case (chat_fails content e)
    then have "has_content w (fname, ln, c)"
      and "chat_call w (fname, ln, c) = ChatCompletion (prompt fname content)"
      by (simp_all add: has_content_def chat_call_def)
    with chat_fails show ?thesis
      unfolding r by (simp del: review_loop.simps add: review_loop_chat_fails [OF chat_fails])
  next
    case (chat content answer)
    then have "has_content w (fname, ln, c)"
      and "chat_call w (fname, ln, c) = ChatCompletion (prompt fname content)"
      by (simp_all add: has_content_def chat_call_def)
    with chat Cons.IH show ?thesis
      unfolding r by (simp del: review_loop.simps add: review_loop_chat [OF chat])
  qed
qed

lemma review_loop_returns:
  "review_loop w recs acc = (Inr comments, evs) \<Longrightarrow>
     map path comments = map path acc @ map fst (filter (has_content w) recs)
     \<and> map line comments = map line acc @ map (\<lambda>r. fst (snd r)) (filter (has_content w) recs)
     \<and> filter is_chat evs = map (chat_call w) (filter (has_content w) recs)"
proof (induction recs arbitrary: acc evs)
  case Nil
  then show ?case by simp
next
  case (Cons r recs)
  obtain fname ln c where r: "r = (fname, ln, c)" by (cases r)
  show ?case
  proof (cases w fname c rule: record_cases)
    case (fetch_fails e)
    with Cons.prems show ?thesis
      unfolding r by simp
  next
    case empty
    then have no: "\<not> has_content w (fname, ln, c)" by (simp add: has_content_def)
    from Cons.prems empty have loop: "review_loop w recs acc = (Inr comments, tl evs)"
      and evs: "evs = GetContents fname (sha c) # tl evs"
      unfolding r by (auto simp only: review_loop_empty [OF empty] prod_eq_iff fst_conv snd_conv list.sel)
    have "filter is_chat evs = filter is_chat (tl evs)"
      by (subst evs) simp
    with Cons.IH [OF loop] no show ?thesis
      unfolding r by simp
  next
    case (chat_fails content e)
    with Cons.prems show ?thesis
      unfolding r by (simp del: review_loop.simps add: review_loop_chat_fails [OF chat_fails])
  next
    case (chat content answer)
    let ?acc = "acc @ [\<lparr>path = fname, line = ln,
                          body = ''*ChatGPT review for '' @ fname @ '':*\<newline>'' @ answer\<rparr>]"
    from chat have yes: "has_content w (fname, ln, c)"
      and call: "chat_call w (fname, ln, c) = ChatCompletion (prompt fname content)"
      by (simp_all add: has_content_def chat_call_def)
    from Cons.prems chat have loop: "review_loop w recs ?acc = (Inr comments, tl (tl evs))"
      and evs: "evs = GetContents fname (sha c) # ChatCompletion (prompt fname content) # tl (tl evs)"
      unfolding r by (auto simp only: review_loop_chat [OF chat] prod_eq_iff fst_conv snd_conv list.sel)
    have "filter is_chat evs = ChatCompletion (prompt fname content) # filter is_chat (tl (tl evs))"
      by (subst evs) simp
    with Cons.IH [OF loop] yes call show ?thesis
      unfolding r by simp
  qed
qed

subsection \<open>The events of the Reply Handler\<close>

lemma for_each_events:
  "e \<in> set (snd (for_each step xs)) \<Longrightarrow> \<exists>x \<in> set xs. e \<in> set (snd (step x))"
proof (induction xs)
  case Nil
  then show ?case by simp
next
  case (Cons x xs)
  obtain r evs where sx: "step x = (r, evs)" by (cases "step x")
  show ?case
  proof (cases r)
    case None
    with Cons sx show ?thesis by (auto simp: case_prod_unfold)
  next
    case (Some err)
    with Cons.prems sx show ?thesis by simp
  qed
qed

lemma handle_reply_events: "e \<in> set (snd (handle_reply w cs r)) \<Longrightarrow> by_reply_handler e"
  by (auto simp: handle_reply_def split: if_splits sum.splits option.splits)

lemma handle_comment_events: "e \<in> set (snd (handle_comment w cs c)) \<Longrightarrow> by_reply_handler e"
  by (auto simp: handle_comment_def split: if_splits
      dest!: for_each_events dest: handle_reply_events)

lemma handle_replies_events:
  "\<exists>evs. snd (handle_replies w) = GetIssueComments # evs \<and> (\<forall>e \<in> set evs. by_reply_handler e)"
  by (auto simp: handle_replies_def case_prod_unfold
      dest!: for_each_events dest: handle_comment_events)

lemma by_reply_handler_not_chat: "by_reply_handler e \<Longrightarrow> \<not> is_chat e"
  by (cases e) simp_all

lemma review_loop_event_kinds:
  "e \<in> set (snd (review_loop w recs acc)) \<Longrightarrow> \<not> by_reply_handler e \<and> \<not> is_create_review e"
  using review_loop_events [of w recs acc] by (cases e) auto

subsection \<open>The runs of \<open>main\<close>\<close>

lemma main_selector_fails:
  "files_for_review fm (get_commits w) (split_on CHR '','' s) = Inl err \<Longrightarrow>
     main w fm (Some s) = (Some err, [])"
  by (simp add: main_def)

lemma main_loop_fails:
  "files_for_review fm (get_commits w) (split_on CHR '','' s) = Inr recs \<Longrightarrow>
   fst (review_loop w recs []) = Inl err \<Longrightarrow>
     main w fm (Some s) = (Some err, snd (review_loop w recs []))"
  by (simp add: main_def case_prod_unfold)

lemma main_no_comments:
  "files_for_review fm (get_commits w) (split_on CHR '','' s) = Inr recs \<Longrightarrow>
   fst (review_loop w recs []) = Inr [] \<Longrightarrow>
     main w fm (Some s) = (None, snd (review_loop w recs []))"
  by (simp add: main_def case_prod_unfold)

lemma main_comments:
  "files_for_review fm (get_commits w) (split_on CHR '','' s) = Inr recs \<Longrightarrow>
   fst (review_loop w recs []) = Inr comments \<Longrightarrow> comments \<noteq> [] \<Longrightarrow>
     main w fm (Some s) =
       (case fst (handle_replies w) of
          Some err \<Rightarrow> (Some err, snd (review_loop w recs []) @ snd (handle_replies w))
        | None \<Rightarrow>
            (create_review w ''**ChatGPT code review**'' ''COMMENT'' comments,
             snd (review_loop w recs []) @ snd (handle_replies w)
               @ [CreateReview ''**ChatGPT code review**'' ''COMMENT'' comments]))"
  by (simp add: main_def case_prod_unfold split: option.splits)

lemma main_chat_calls:
  assumes "files_for_review fm (get_commits w) (split_on CHR '','' s) = Inr recs"
  shows "filter is_chat (snd (main w fm (Some s))) = filter is_chat (snd (review_loop w recs []))"
proof -
  obtain evs where h: "snd (handle_replies w) = GetIssueComments # evs"
    and evs: "\<forall>e \<in> set evs. by_reply_handler e"
    using handle_replies_events [of w] by blast
  then have none: "filter is_chat (snd (handle_replies w)) = []"
    by (auto simp: filter_empty_conv dest: by_reply_handler_not_chat)
  show ?thesis
  proof (cases "fst (review_loop w recs [])")
    case (Inl err)
    from main_loop_fails [OF assms Inl] show ?thesis by simp
  next
    case (Inr comments)
    show ?thesis
    proof (cases "comments = []")
      case True
      with Inr main_no_comments [OF assms] show ?thesis by simp
    next
      case False
      from main_comments [OF assms Inr False] none show ?thesis
        by (cases "fst (handle_replies w)") simp_all
    qed
  qed
qed

lemma main_review_comments:
  assumes "files_for_review fm (get_commits w) (split_on CHR '','' s) = Inr recs"
    and "CreateReview title ev cs \<in> set (snd (main w fm (Some s)))"
  shows "fst (review_loop w recs []) = Inr cs"
proof -
  obtain evs where h: "snd (handle_replies w) = GetIssueComments # evs"
    and evs: "\<forall>e \<in> set evs. by_reply_handler e"
    using handle_replies_events [of w] by blast
  then have noh: "CreateReview title ev cs \<notin> set (snd (handle_replies w))" by auto
  have nol: "CreateReview title ev cs \<notin> set (snd (review_loop w recs []))"
    using review_loop_event_kinds [of "CreateReview title ev cs" w recs "[]"] by auto
  show ?thesis
  proof (cases "fst (review_loop w recs [])")
    case (Inl err)
    from main_loop_fails [OF assms(1) Inl] assms(2) nol show ?thesis by simp
  next
    case (Inr comments)
    show ?thesis
    proof (cases "comments = []")
      case True
      with Inr main_no_comments [OF assms(1)] assms(2) nol show ?thesis by simp
    next
      case False
      from main_comments [OF assms(1) Inr False] assms(2) nol noh Inr show ?thesis
        by (cases "fst (handle_replies w)") auto
    qed
  qed
qed

lemma ex_patterns: "split_on CHR '','' ''*.ts,*.py'' = [''*.ts'', ''*.py'']"
  by simp

lemma ex_world_records:
  "files_for_review glob (get_commits ex_world) (split_on CHR '','' ''*.ts,*.py'')
     = Inr [(''a.py'', 1, ex_commit1), (''b.ts'', 5, ex_commit2)]"
  by (simp only: ex_patterns) (simp add: ex_world_def example_run)

lemma ex_world_empty_records:
  "files_for_review glob (get_commits ex_world_empty) (split_on CHR '','' ''*.ts,*.py'')
     = Inr [(''a.py'', 1, ex_commit1), (''b.ts'', 5, ex_commit2)]"
  by (simp only: ex_patterns) (simp add: ex_world_empty_def ex_world_def example_run)

lemma ex_world_produced:
  "produced ex_world glob ''*.ts,*.py''
     = Inr [\<lparr>path = ''a.py'', line = 1,
              body = ''*ChatGPT review for a.py:*\<newline>looks fine''\<rparr>]"
  by (simp only: produced_def ex_world_records sum.case)
     (simp add: ex_world_def ex_commit1_def ex_commit2_def review_def)

lemma ex_world_empty_produced: "produced ex_world_empty glob ''*.ts,*.py'' = Inr []"
  by (simp only: produced_def ex_world_empty_records sum.case)
     (simp add: ex_world_empty_def ex_world_def)

text \<open>
  Claim C7. A file selected for review whose fetched content is empty gets no Review
  Comment and no completion call, and it is no error: the comments of the run are those
  of the records with content, the chat calls of the run are calls for records with
  content, no review carries a comment for the file, and without the records of empty
  files the loop gives the same result and the same events but for their fetches.
\<close>

theorem main_skips_empty_file:
  assumes "files_for_review fm (get_commits w) (split_on CHR '','' s) = Inr recs"
    and "(fname, l, c) \<in> set recs"
    and "get_contents w fname (sha c) = Inr []"
  shows "fname \<notin> fst ` set (filter (has_content w) recs)
         \<and> (\<exists>rest. map (chat_call w) (filter (has_content w) recs)
                     = filter is_chat (snd (main w fm (Some s))) @ rest)
         \<and> (\<forall>title ev cs. CreateReview title ev cs \<in> set (snd (main w fm (Some s)))
               \<longrightarrow> fname \<notin> path ` set cs)
         \<and> (\<forall>comments. produced w fm s = Inr comments \<longrightarrow>
               map path comments = map fst (filter (has_content w) recs)
               \<and> fname \<notin> path ` set comments
               \<and> filter is_chat (snd (main w fm (Some s)))
                   = map (chat_call w) (filter (has_content w) recs))
         \<and> fst (review_loop w recs []) = fst (review_loop w (filter (has_content w) recs) [])
         \<and> filter (\<lambda>e. \<not> is_get_contents e) (snd (review_loop w recs []))
             = filter (\<lambda>e. \<not> is_get_contents e)
                 (snd (review_loop w (filter (has_content w) recs) []))"
proof -
  let ?kept = "filter (has_content w) recs"
  have names: "distinct (map fst recs)" by (rule files_for_review_names(1) [OF assms(1)])
  have out: "fname \<notin> fst ` set ?kept"
  proof
    assume "fname \<in> fst ` set ?kept"
    then obtain l' c' where r': "(fname, l', c') \<in> set recs" "has_content w (fname, l', c')"
      by auto
    from names r'(1) assms(2) have "(fname, l', c') = (fname, l, c)"
      by (auto dest: eq_key_imp_eq_value)
    with r'(2) assms(3) show False by (simp add: has_content_def)
  qed
  have prod: "produced w fm s = fst (review_loop w recs [])"
    by (simp add: produced_def assms(1))
  have returns: "\<forall>comments. produced w fm s = Inr comments \<longrightarrow>
               map path comments = map fst (filter (has_content w) recs)
               \<and> fname \<notin> path ` set comments
               \<and> filter is_chat (snd (main w fm (Some s)))
                   = map (chat_call w) (filter (has_content w) recs)"
  proof (intro allI impI)
    fix comments assume "produced w fm s = Inr comments"
    with prod have "review_loop w recs [] = (Inr comments, snd (review_loop w recs []))"
      by (simp add: prod_eq_iff)
    from review_loop_returns [OF this]
    have p: "map path comments = map fst ?kept"
      and ch: "filter is_chat (snd (review_loop w recs [])) = map (chat_call w) ?kept"
      by simp_all
    from p have "path ` set comments = fst ` set ?kept"
      by (metis list.set_map)
    with out p ch main_chat_calls [OF assms(1)]
    show "map path comments = map fst ?kept \<and> fname \<notin> path ` set comments
      \<and> filter is_chat (snd (main w fm (Some s))) = map (chat_call w) ?kept"
      by simp
  qed
  have review: "\<forall>title ev cs. CreateReview title ev cs \<in> set (snd (main w fm (Some s)))
               \<longrightarrow> fname \<notin> path ` set cs"
  proof (intro allI impI)
    fix title ev cs assume "CreateReview title ev cs \<in> set (snd (main w fm (Some s)))"
    from main_review_comments [OF assms(1) this] prod have "produced w fm s = Inr cs" by simp
    with returns show "fname \<notin> path ` set cs" by blast
  qed
  from review_loop_calls [of w recs "[]"] main_chat_calls [OF assms(1)]
  have calls: "\<exists>rest. map (chat_call w) ?kept = filter is_chat (snd (main w fm (Some s))) @ rest"
    by simp
  have same: "fst (review_loop w recs []) = fst (review_loop w ?kept [])"
    and same_events: "filter (\<lambda>e. \<not> is_get_contents e) (snd (review_loop w recs []))
             = filter (\<lambda>e. \<not> is_get_contents e) (snd (review_loop w ?kept []))"
    using review_loop_without_empty [of w recs "[]"] by simp_all
  from out calls review returns same same_events
  show ?thesis by - (intro conjI; assumption)
qed

theorem main_skips_empty_file_witness:
  "files_for_review glob (get_commits ex_world) (split_on CHR '','' ''*.ts,*.py'')
     = Inr [(''a.py'', 1, ex_commit1), (''b.ts'', 5, ex_commit2)]
   \<and> get_contents ex_world ''b.ts'' (sha ex_commit2) = Inr []
   \<and> produced ex_world glob ''*.ts,*.py''
     = Inr [\<lparr>path = ''a.py'', line = 1, body = ''*ChatGPT review for a.py:*\<newline>looks fine''\<rparr>]
   \<and> filter is_chat (snd (main ex_world glob (Some ''*.ts,*.py'')))
     = [ChatCompletion (prompt ''a.py'' ''x = 1'')]
   \<and> ''b.ts'' \<notin> path ` set [\<lparr>path = ''a.py'', line = 1,
                                 body = ''*ChatGPT review for a.py:*\<newline>looks fine''\<rparr>]"
proof -
  have mem: "(''b.ts'', 5, ex_commit2) \<in> set [(''a.py'', 1, ex_commit1), (''b.ts'', 5, ex_commit2)]"
    by simp
  have empty: "get_contents ex_world ''b.ts'' (sha ex_commit2) = Inr []"
    by (simp add: ex_world_def)
  note t = main_skips_empty_file [OF ex_world_records mem empty]
  have kept: "filter (has_content ex_world) [(''a.py'', 1, ex_commit1), (''b.ts'', 5, ex_commit2)]
                = [(''a.py'', 1, ex_commit1)]"
    by (simp add: has_content_def ex_world_def)
  have call: "chat_call ex_world (''a.py'', 1, ex_commit1) = ChatCompletion (prompt ''a.py'' ''x = 1'')"
    by (simp add: chat_call_def ex_world_def)
  from t ex_world_produced kept call
  have "filter is_chat (snd (main ex_world glob (Some ''*.ts,*.py'')))
          = [ChatCompletion (prompt ''a.py'' ''x = 1'')]"
    and "''b.ts'' \<notin> path ` set [\<lparr>path = ''a.py'', line = 1,
                                 body = ''*ChatGPT review for a.py:*\<newline>looks fine''\<rparr>]"
    by simp_all
  with ex_world_records empty ex_world_produced show ?thesis by blast
qed

text \<open>
  Claim C9. In a run of \<open>main\<close> that produced at least one Review Comment the Reply
  Handler runs after the loop over the records, and the review is created after it, as
  the last call of the run: one review, with the fixed title, the event "COMMENT" and all
  the comments (when the Reply Handler raises, the run ends there). In a run that
  produced no comment, and in a run that ended before, no review is created and the
  Reply Handler is not invoked.
\<close>

theorem main_review_after_replies:
  "(\<forall>comments. produced w fm s = Inr comments \<and> comments \<noteq> [] \<longrightarrow>
      (\<exists>evs1 evs2.
          (\<forall>e \<in> set evs1. \<not> by_reply_handler e \<and> \<not> is_create_review e)
          \<and> snd (handle_replies w) = GetIssueComments # evs2
          \<and> (\<forall>e \<in> set evs2. by_reply_handler e)
          \<and> (fst (handle_replies w) = None \<longrightarrow>
                main w fm (Some s)
                  = (create_review w ''**ChatGPT code review**'' ''COMMENT'' comments,
                     evs1 @ GetIssueComments # evs2
                       @ [CreateReview ''**ChatGPT code review**'' ''COMMENT'' comments]))
          \<and> (\<forall>err. fst (handle_replies w) = Some err \<longrightarrow>
                main w fm (Some s) = (Some err, evs1 @ GetIssueComments # evs2))))
   \<and> (produced w fm s = Inr [] \<longrightarrow>
         fst (main w fm (Some s)) = None
         \<and> (\<forall>e \<in> set (snd (main w fm (Some s))). \<not> by_reply_handler e \<and> \<not> is_create_review e))
   \<and> (\<forall>err. produced w fm s = Inl err \<longrightarrow>
         fst (main w fm (Some s)) = Some err
         \<and> (\<forall>e \<in> set (snd (main w fm (Some s))). \<not> by_reply_handler e \<and> \<not> is_create_review e))
   \<and> main w fm None = (Some AttributeError, [])"
proof (intro conjI allI impI)
  fix comments assume "produced w fm s = Inr comments \<and> comments \<noteq> []"
  then have p: "produced w fm s = Inr comments" and ne: "comments \<noteq> []" by simp_all
  from p obtain recs where
    recs: "files_for_review fm (get_commits w) (split_on CHR '','' s) = Inr recs"
    and loop: "fst (review_loop w recs []) = Inr comments"
    by (auto simp: produced_def split: sum.splits)
  obtain evs2 where h: "snd (handle_replies w) = GetIssueComments # evs2"
    and evs2: "\<forall>e \<in> set evs2. by_reply_handler e"
    using handle_replies_events [of w] by blast
  let ?evs1 = "snd (review_loop w recs [])"
  have "\<forall>e \<in> set ?evs1. \<not> by_reply_handler e \<and> \<not> is_create_review e"
    using review_loop_event_kinds by blast
  moreover have "fst (handle_replies w) = None \<longrightarrow>
                main w fm (Some s)
                  = (create_review w ''**ChatGPT code review**'' ''COMMENT'' comments,
                     ?evs1 @ GetIssueComments # evs2
                       @ [CreateReview ''**ChatGPT code review**'' ''COMMENT'' comments])"
    using main_comments [OF recs loop ne] h by simp
  moreover have "\<forall>err. fst (handle_replies w) = Some err \<longrightarrow>
                main w fm (Some s) = (Some err, ?evs1 @ GetIssueComments # evs2)"
    using main_comments [OF recs loop ne] h by simp
  ultimately have "(\<forall>e \<in> set ?evs1. \<not> by_reply_handler e \<and> \<not> is_create_review e)
          \<and> snd (handle_replies w) = GetIssueComments # evs2
          \<and> (\<forall>e \<in> set evs2. by_reply_handler e)
          \<and> (fst (handle_replies w) = None \<longrightarrow>
                main w fm (Some s)
                  = (create_review w ''**ChatGPT code review**'' ''COMMENT'' comments,
                     ?evs1 @ GetIssueComments # evs2
                       @ [CreateReview ''**ChatGPT code review**'' ''COMMENT'' comments]))
          \<and> (\<forall>err. fst (handle_replies w) = Some err \<longrightarrow>
                main w fm (Some s) = (Some err, ?evs1 @ GetIssueComments # evs2))"
    using h evs2 by - (intro conjI; assumption)
  then show "\<exists>evs1 evs2.
          (\<forall>e \<in> set evs1. \<not> by_reply_handler e \<and> \<not> is_create_review e)
          \<and> snd (handle_replies w) = GetIssueComments # evs2
          \<and> (\<forall>e \<in> set evs2. by_reply_handler e)
          \<and> (fst (handle_replies w) = None \<longrightarrow>
                main w fm (Some s)
                  = (create_review w ''**ChatGPT code review**'' ''COMMENT'' comments,
                     evs1 @ GetIssueComments # evs2
                       @ [CreateReview ''**ChatGPT code review**'' ''COMMENT'' comments]))
          \<and> (\<forall>err. fst (handle_replies w) = Some err \<longrightarrow>
                main w fm (Some s) = (Some err, evs1 @ GetIssueComments # evs2))"
    by (intro exI)
next
  assume p: "produced w fm s = Inr []"
  then obtain recs where
    recs: "files_for_review fm (get_commits w) (split_on CHR '','' s) = Inr recs"
    and loop: "fst (review_loop w recs []) = Inr []"
    by (auto simp: produced_def split: sum.splits)
  from main_no_comments [OF recs loop]
  show "fst (main w fm (Some s)) = None"
    and "\<forall>e \<in> set (snd (main w fm (Some s))). \<not> by_reply_handler e \<and> \<not> is_create_review e"
    using review_loop_event_kinds by auto
next
  fix err assume p: "produced w fm s = Inl err"
  show "fst (main w fm (Some s)) = Some err"
    and "\<forall>e \<in> set (snd (main w fm (Some s))). \<not> by_reply_handler e \<and> \<not> is_create_review e"
  proof -
    have "fst (main w fm (Some s)) = Some err
      \<and> (\<forall>e \<in> set (snd (main w fm (Some s))). \<not> by_reply_handler e \<and> \<not> is_create_review e)"
    proof (cases "files_for_review fm (get_commits w) (split_on CHR '','' s)")
      case (Inl e0)
      with p have "e0 = err" by (simp add: produced_def)
      with main_selector_fails [OF Inl] show ?thesis by simp
    next
      case (Inr recs)
      with p have "fst (review_loop w recs []) = Inl err" by (simp add: produced_def)
      from main_loop_fails [OF Inr this] show ?thesis
        using review_loop_event_kinds by auto
    qed
    then show "fst (main w fm (Some s)) = Some err"
      and "\<forall>e \<in> set (snd (main w fm (Some s))). \<not> by_reply_handler e \<and> \<not> is_create_review e"
      by simp_all
  qed
next
  show "main w fm None = (Some AttributeError, [])" by (simp add: main_def)
qed

theorem main_review_after_replies_witness:
  "produced ex_world glob ''*.ts,*.py''
     = Inr [\<lparr>path = ''a.py'', line = 1, body = ''*ChatGPT review for a.py:*\<newline>looks fine''\<rparr>]
   \<and> fst (handle_replies ex_world) = None
   \<and> fst (main ex_world glob (Some ''*.ts,*.py'')) = None
   \<and> last (snd (main ex_world glob (Some ''*.ts,*.py'')))
       = CreateReview ''**ChatGPT code review**'' ''COMMENT''
           [\<lparr>path = ''a.py'', line = 1, body = ''*ChatGPT review for a.py:*\<newline>looks fine''\<rparr>]
   \<and> length (filter is_create_review (snd (main ex_world glob (Some ''*.ts,*.py'')))) = 1
   \<and> GetIssueComments \<in> set (butlast (snd (main ex_world glob (Some ''*.ts,*.py''))))
   \<and> produced ex_world_empty glob ''*.ts,*.py'' = Inr []
   \<and> filter by_reply_handler (snd (main ex_world_empty glob (Some ''*.ts,*.py''))) = []
   \<and> filter is_create_review (snd (main ex_world_empty glob (Some ''*.ts,*.py''))) = []"
proof -
  let ?cs = "[\<lparr>path = ''a.py'', line = 1, body = ''*ChatGPT review for a.py:*\<newline>looks fine''\<rparr>]"
  let ?run = "main ex_world glob (Some ''*.ts,*.py'')"
  note t = main_review_after_replies [of ex_world glob "''*.ts,*.py''"]
  have made: "produced ex_world glob ''*.ts,*.py'' = Inr ?cs \<and> ?cs \<noteq> []"
    using ex_world_produced by simp
  from conjunct1 [OF t, rule_format, OF made] ex_world_replies obtain evs1 evs2 where
    evs1: "\<forall>e \<in> set evs1. \<not> by_reply_handler e \<and> \<not> is_create_review e"
    and evs2: "\<forall>e \<in> set evs2. by_reply_handler e"
    and run: "?run = (create_review ex_world ''**ChatGPT code review**'' ''COMMENT'' ?cs,
                 evs1 @ GetIssueComments # evs2
                   @ [CreateReview ''**ChatGPT code review**'' ''COMMENT'' ?cs])"
    by blast
  have nr: "\<not> is_create_review e" if "by_reply_handler e" for e
    using that by (cases e) simp_all
  from evs1 evs2 nr have "filter is_create_review evs1 = []" "filter is_create_review evs2 = []"
    by (auto simp: filter_empty_conv)
  with run have one: "length (filter is_create_review (snd ?run)) = 1" by simp
  from run have res: "fst ?run = None" by (simp add: ex_world_def)
  from run have lst: "last (snd ?run) = CreateReview ''**ChatGPT code review**'' ''COMMENT'' ?cs"
    by simp
  from run have "butlast (snd ?run) = evs1 @ GetIssueComments # evs2"
    by (simp add: butlast_append)
  then have before: "GetIssueComments \<in> set (butlast (snd ?run))" by simp
  note t' = main_review_after_replies [of ex_world_empty glob "''*.ts,*.py''"]
  from t' ex_world_empty_produced
  have "\<forall>e \<in> set (snd (main ex_world_empty glob (Some ''*.ts,*.py''))).
          \<not> by_reply_handler e \<and> \<not> is_create_review e"
    by blast
  then have none: "filter by_reply_handler (snd (main ex_world_empty glob (Some ''*.ts,*.py''))) = []"
      "filter is_create_review (snd (main ex_world_empty glob (Some ''*.ts,*.py''))) = []"
    by (auto simp: filter_empty_conv)
  from ex_world_produced ex_world_replies res lst one before ex_world_empty_produced none
  show ?thesis by blast
qed

end
